theory Spec2Isabelle
  imports Main
begin

section \<open>The child transition coordinator (TransitionGroup)\<close>

text \<open>
  The embedded program is the \<^verbatim>\<open>TransitionGroup\<close> component in the second half of
  \<^verbatim>\<open>src/packages/sampler/stories/qa-stories/CheckboxItem.js\<close> (lines 91 to 413).
  It keeps an ordered array of children (\<^verbatim>\<open>this.state.children\<close>), a table of the
  keys whose transition is in flight (\<^verbatim>\<open>this.currentlyTransitioningKeys\<close>) and three
  queues of keys (\<^verbatim>\<open>keysToEnter\<close>, \<^verbatim>\<open>keysToStay\<close>, \<^verbatim>\<open>keysToLeave\<close>)
  that are filled when new props arrive and drained after the next render.
\<close>

subsection \<open>Data\<close>

text \<open>
  The hook surface of a mounted child component: which of the eight optional lifecycle
  methods it defines (\<^verbatim>\<open>if (component.componentWillEnter) ...\<close>).
\<close>

record component =
  componentWillAppear :: bool
  componentDidAppear :: bool
  componentWillEnter :: bool
  componentDidEnter :: bool
  componentWillStay :: bool
  componentDidStay :: bool
  componentWillLeave :: bool
  componentDidLeave :: bool

text \<open>
  A child element: its \<^verbatim>\<open>key\<close>, an opaque payload (type and props of the element)
  and the hook surface of the component React mounts for it.
\<close>

record 'p child =
  key :: string
  payload :: 'p
  iface :: component

text \<open>
  The props the coordinator reads: \<^verbatim>\<open>children\<close> (an array that may hold null
  entries, or no array at all) and \<^verbatim>\<open>size\<close>.
\<close>

record 'p props =
  children_p :: "'p child option list option"
  size_p :: int

datatype kind = Appear | Enter | Stay | Leave

text \<open>
  What the coordinator does to the outside world, in order: \<open>Perform\<close> records a call of
  \<^verbatim>\<open>performAppear/Enter/Stay/Leave\<close>, \<open>Will\<close> a call of the child's
  \<^verbatim>\<open>componentWill...\<close> hook (which receives the completion callback) and \<open>Did\<close>
  a call of its \<^verbatim>\<open>componentDid...\<close> hook.
\<close>

datatype event = Perform kind string | Will kind string | Did kind string

text \<open>
  Reading a property of \<^verbatim>\<open>undefined\<close> throws; it is the only error the component
  can raise by itself.
\<close>

datatype error = TypeError

text \<open>
  The instance. \<open>refs\<close> is React's \<^verbatim>\<open>this.refs\<close>: \<^verbatim>\<open>render\<close> gives every element
  of \<^verbatim>\<open>this.state.children\<close> the ref \<^verbatim>\<open>child.key\<close>, so after a render it holds the
  mounted component of exactly the rendered keys, and \<^verbatim>\<open>this.refs[key]\<close> is
  \<^verbatim>\<open>undefined\<close> for any other key. \<open>currentlyTransitioningKeys\<close> is a JavaScript object
  used as a set (entries are set to \<^verbatim>\<open>true\<close> or deleted).
\<close>

record 'p state =
  props :: "'p props"
  children :: "'p child list"
  refs :: "string \<rightharpoonup> component"
  currentlyTransitioningKeys :: "string set"
  keysToEnter :: "string list"
  keysToStay :: "string list"
  keysToLeave :: "string list"
  trace :: "event list"

subsection \<open>Helpers on arrays of children\<close>

text \<open>\<^verbatim>\<open>R.findIndex\<close>: the index of the first element satisfying the predicate, or -1.\<close>

fun findIndex :: "('a \<Rightarrow> bool) \<Rightarrow> 'a list \<Rightarrow> int" where
  "findIndex P [] = - 1"
| "findIndex P (x # xs) =
     (if P x then 0 else (let i = findIndex P xs in if i < 0 then - 1 else i + 1))"

text \<open>\<^verbatim>\<open>indexOfChild = R.useWith(R.findIndex, [R.propEq('key'), R.identity])\<close>\<close>

definition indexOfChild :: "string \<Rightarrow> 'p child list \<Rightarrow> int" where
  "indexOfChild k cs = findIndex (\<lambda>c. key c = k) cs"

text \<open>\<^verbatim>\<open>hasChild = R.compose(R.lte(0), indexOfChild)\<close>\<close>

definition hasChild :: "string \<Rightarrow> 'p child list \<Rightarrow> bool" where
  "hasChild k cs = (0 \<le> indexOfChild k cs)"

text \<open>
  \<^verbatim>\<open>mapChildren\<close>: no children give the empty array; otherwise
  \<^verbatim>\<open>React.Children.toArray\<close> lists the children in order and the null entries are
  filtered out.
\<close>

definition mapChildren :: "'p child option list option \<Rightarrow> 'p child list" where
  "mapChildren cs = (case cs of None \<Rightarrow> [] | Some xs \<Rightarrow> List.map_filter (\<lambda>c. c) xs)"

text \<open>
  \<^verbatim>\<open>R.uniqWith(pred, list)\<close> walks the list and appends an item to the result unless
  the result already contains an item that \<^verbatim>\<open>pred\<close> relates to it;
  \<^verbatim>\<open>R.unionWith(pred, a, b)\<close> is \<^verbatim>\<open>uniqWith(pred, a.concat(b))\<close>.
\<close>

fun uniqWith_loop :: "('a \<Rightarrow> 'a \<Rightarrow> bool) \<Rightarrow> 'a list \<Rightarrow> 'a list \<Rightarrow> 'a list" where
  "uniqWith_loop pred [] result = result"
| "uniqWith_loop pred (item # rest) result =
     uniqWith_loop pred rest (if list_ex (pred item) result then result else result @ [item])"

definition uniqWith :: "('a \<Rightarrow> 'a \<Rightarrow> bool) \<Rightarrow> 'a list \<Rightarrow> 'a list" where
  "uniqWith pred xs = uniqWith_loop pred xs []"

definition unionWith :: "('a \<Rightarrow> 'a \<Rightarrow> bool) \<Rightarrow> 'a list \<Rightarrow> 'a list \<Rightarrow> 'a list" where
  "unionWith pred a b = uniqWith pred (a @ b)"

text \<open>\<^verbatim>\<open>mergeChildren = R.unionWith(R.eqBy(R.prop('key')))\<close>\<close>

definition mergeChildren :: "'p child list \<Rightarrow> 'p child list \<Rightarrow> 'p child list" where
  "mergeChildren a b = unionWith (\<lambda>x y. key x = key y) a b"

text \<open>
  Lines 224 to 228 of \<^verbatim>\<open>componentWillReceiveProps\<close>: the children exceeding the
  allowed size are split off the front. \<open>None\<close> is the source's \<^verbatim>\<open>dropped = null\<close>.
\<close>

definition dropExcess :: "int \<Rightarrow> 'a list \<Rightarrow> 'a list option \<times> 'a list" where
  "dropExcess sz cs =
     (let d = int (length cs) - sz
      in if d > 0 then (Some (take (nat d) cs), drop (nat d) cs) else (None, cs))"

definition droppedList :: "'a list option \<Rightarrow> 'a list" where
  "droppedList d = (case d of None \<Rightarrow> [] | Some xs \<Rightarrow> xs)"

definition keys :: "'p child list \<Rightarrow> string list" where
  "keys cs = map key cs"


text \<open>
  \<^verbatim>\<open>R.remove(start, count, list)\<close>, as the Ramda release of this source (0.22) has it:
  the elements before index \<^verbatim>\<open>Math.min(start, list.length)\<close> followed by the elements
  from index \<^verbatim>\<open>Math.min(list.length, start + count)\<close> on. A start beyond the end removes
  nothing, and neither does the start -1 with count 1 that \<^verbatim>\<open>indexOfChild\<close> gives for
  a missing key. The source calls it with count 1 and a start from -1 on only, so
  \<open>start + count\<close> is never negative.
\<close>

definition R_remove :: "int \<Rightarrow> nat \<Rightarrow> 'a list \<Rightarrow> 'a list" where
  "R_remove start count xs =
     (let n = int (length xs)
      in take (nat (min start n)) xs @ drop (nat (min n (start + int count))) xs)"

subsection \<open>Results and loops\<close>

text \<open>
  A method either returns the updated instance or throws. \<open>forEach\<close> is
  \<^verbatim>\<open>Array.prototype.forEach\<close> with a callback that may throw: the first exception
  ends the loop.
\<close>

definition andThen :: "error + 'a \<Rightarrow> ('a \<Rightarrow> error + 'b) \<Rightarrow> error + 'b" where
  "andThen r f = (case r of Inl e \<Rightarrow> Inl e | Inr x \<Rightarrow> f x)"

fun forEach :: "('s \<Rightarrow> 'k \<Rightarrow> error + 's) \<Rightarrow> 'k list \<Rightarrow> 's \<Rightarrow> error + 's" where
  "forEach f [] s = Inr s"
| "forEach f (k # ks) s = (case f s k of Inl e \<Rightarrow> Inl e | Inr s' \<Rightarrow> forEach f ks s')"

definition emit :: "event \<Rightarrow> 'p state \<Rightarrow> 'p state" where
  "emit e s = s\<lparr>trace := trace s @ [e]\<rparr>"

subsection \<open>Completion handlers and transitions\<close>

text \<open>
  \<^verbatim>\<open>_handleDoneLeaving\<close>. \<^verbatim>\<open>this.setState\<close> with an updater: the index of the key is
  looked up in the children current when the updater runs. Nothing reads
  \<^verbatim>\<open>this.state.children\<close> between the call and the moment React runs the updater, so
  the model applies it at once; \<open>refs\<close> changes only with the next render.
\<close>

definition handleDoneLeaving :: "'p state \<Rightarrow> string \<Rightarrow> error + 'p state" where
  "handleDoneLeaving s k =
     (case refs s k of
        None \<Rightarrow> Inl TypeError
      | Some component \<Rightarrow>
          (let s1 = (if componentDidLeave component then emit (Did Leave k) s else s);
               s2 = s1\<lparr>currentlyTransitioningKeys := currentlyTransitioningKeys s1 - {k}\<rparr>;
               index = indexOfChild k (children s2)
           in Inr (s2\<lparr>children := R_remove index 1 (children s2)\<rparr>)))"

definition performLeave :: "'p state \<Rightarrow> string \<Rightarrow> error + 'p state" where
  "performLeave s k =
     (let s1 = emit (Perform Leave k)
                 (s\<lparr>currentlyTransitioningKeys := insert k (currentlyTransitioningKeys s)\<rparr>)
      in case refs s1 k of
           None \<Rightarrow> Inl TypeError
         | Some component \<Rightarrow>
             if componentWillLeave component then Inr (emit (Will Leave k) s1)
             else handleDoneLeaving s1 k)"

definition handleDoneAppearing :: "'p state \<Rightarrow> string \<Rightarrow> error + 'p state" where
  "handleDoneAppearing s k =
     (case refs s k of
        None \<Rightarrow> Inl TypeError
      | Some component \<Rightarrow>
          (let s1 = (if componentDidAppear component then emit (Did Appear k) s else s);
               s2 = s1\<lparr>currentlyTransitioningKeys := currentlyTransitioningKeys s1 - {k}\<rparr>;
               currentChildMapping = mapChildren (children_p (props s2))
           in if \<not> hasChild k currentChildMapping then performLeave s2 k else Inr s2))"

definition performAppear :: "'p state \<Rightarrow> string \<Rightarrow> error + 'p state" where
  "performAppear s k =
     (let s1 = emit (Perform Appear k)
                 (s\<lparr>currentlyTransitioningKeys := insert k (currentlyTransitioningKeys s)\<rparr>)
      in case refs s1 k of
           None \<Rightarrow> Inl TypeError
         | Some component \<Rightarrow>
             if componentWillAppear component then Inr (emit (Will Appear k) s1)
             else handleDoneAppearing s1 k)"

definition handleDoneEntering :: "'p state \<Rightarrow> string \<Rightarrow> error + 'p state" where
  "handleDoneEntering s k =
     (case refs s k of
        None \<Rightarrow> Inl TypeError
      | Some component \<Rightarrow>
          (let s1 = (if componentDidEnter component then emit (Did Enter k) s else s)
           in Inr (s1\<lparr>currentlyTransitioningKeys := currentlyTransitioningKeys s1 - {k}\<rparr>)))"

definition performEnter :: "'p state \<Rightarrow> string \<Rightarrow> error + 'p state" where
  "performEnter s k =
     (let s1 = emit (Perform Enter k)
                 (s\<lparr>currentlyTransitioningKeys := insert k (currentlyTransitioningKeys s)\<rparr>)
      in case refs s1 k of
           None \<Rightarrow> Inl TypeError
         | Some component \<Rightarrow>
             if componentWillEnter component then Inr (emit (Will Enter k) s1)
             else handleDoneEntering s1 k)"

definition handleDoneStaying :: "'p state \<Rightarrow> string \<Rightarrow> error + 'p state" where
  "handleDoneStaying s k =
     (case refs s k of
        None \<Rightarrow> Inl TypeError
      | Some component \<Rightarrow>
          Inr (if componentDidStay component then emit (Did Stay k) s else s))"

definition performStay :: "'p state \<Rightarrow> string \<Rightarrow> error + 'p state" where
  "performStay s k =
     (let s1 = emit (Perform Stay k) s
      in case refs s1 k of
           None \<Rightarrow> Inl TypeError
         | Some component \<Rightarrow>
             if componentWillStay component then Inr (emit (Will Stay k) s1)
             else handleDoneStaying s1 k)"

subsection \<open>Lifecycle methods\<close>

text \<open>\<^verbatim>\<open>dropped && hasChild(key, dropped)\<close>\<close>

definition isDropped :: "string \<Rightarrow> 'p child list option \<Rightarrow> bool" where
  "isDropped k dropped = (case dropped of None \<Rightarrow> False | Some d \<Rightarrow> hasChild k d)"

text \<open>The first loop of \<^verbatim>\<open>componentWillReceiveProps\<close>, over the next children.\<close>

fun markEntering ::
  "'p child list \<Rightarrow> 'p child list option \<Rightarrow> 'p child list \<Rightarrow> 'p state \<Rightarrow> 'p state" where
  "markEntering prevChildMapping dropped [] s = s"
| "markEntering prevChildMapping dropped (c # cs) s =
     markEntering prevChildMapping dropped cs
       (let k = key c; hasPrev = hasChild k prevChildMapping
        in if \<not> isDropped k dropped
           then if \<not> hasPrev \<or> k \<in> currentlyTransitioningKeys s
                then s\<lparr>keysToEnter := keysToEnter s @ [k]\<rparr>
                else s\<lparr>keysToStay := keysToStay s @ [k]\<rparr>
           else s)"

text \<open>The second loop, over the previous children.\<close>

fun markLeaving ::
  "'p child list \<Rightarrow> 'p child list option \<Rightarrow> 'p child list \<Rightarrow> 'p state \<Rightarrow> 'p state" where
  "markLeaving nextChildMapping dropped [] s = s"
| "markLeaving nextChildMapping dropped (c # cs) s =
     markLeaving nextChildMapping dropped cs
       (let k = key c; hasNext = hasChild k nextChildMapping
        in if \<not> isDropped k dropped \<and> \<not> hasNext
           then s\<lparr>keysToLeave := keysToLeave s @ [k]\<rparr>
           else s)"

text \<open>
  \<^verbatim>\<open>componentWillReceiveProps\<close>. \<^verbatim>\<open>this.setState({children})\<close> is merged into the
  state before the next render and \<^verbatim>\<open>this.state.children\<close> is not read again in the
  method (the previous children are held in \<^verbatim>\<open>prevChildMapping\<close>). The last loop
  deletes the flag of every dropped child.
\<close>

definition componentWillReceiveProps :: "'p props \<Rightarrow> 'p state \<Rightarrow> 'p state" where
  "componentWillReceiveProps nextProps s =
     (let nextChildMapping = mapChildren (children_p nextProps);
          prevChildMapping = children s;
          (dropped, kept) = dropExcess (size_p nextProps)
                              (mergeChildren prevChildMapping nextChildMapping);
          s1 = s\<lparr>children := kept\<rparr>;
          s2 = markEntering prevChildMapping dropped nextChildMapping s1;
          s3 = markLeaving nextChildMapping dropped prevChildMapping s2
      in s3\<lparr>currentlyTransitioningKeys :=
               currentlyTransitioningKeys s3 - set (keys (droppedList dropped))\<rparr>)"

text \<open>\<^verbatim>\<open>componentDidUpdate\<close>: each queue is taken, reset and walked.\<close>

definition componentDidUpdate :: "'p state \<Rightarrow> error + 'p state" where
  "componentDidUpdate s =
     andThen (forEach performEnter (keysToEnter s) (s\<lparr>keysToEnter := []\<rparr>)) (\<lambda>s1.
     andThen (forEach performStay (keysToStay s1) (s1\<lparr>keysToStay := []\<rparr>)) (\<lambda>s2.
     forEach performLeave (keysToLeave s2) (s2\<lparr>keysToLeave := []\<rparr>)))"

text \<open>
  \<^verbatim>\<open>render\<close> clones every element of \<^verbatim>\<open>this.state.children\<close> with
  \<^verbatim>\<open>ref: child.key\<close>; once React has committed the output, \<^verbatim>\<open>this.refs\<close> holds the
  mounted components of these keys and of no other.
\<close>

definition render :: "'p state \<Rightarrow> 'p state" where
  "render s = s\<lparr>refs := map_of (map (\<lambda>c. (key c, iface c)) (children s))\<rparr>"

text \<open>The constructor followed by \<^verbatim>\<open>componentWillMount\<close>.\<close>

definition init :: "'p props \<Rightarrow> 'p state" where
  "init p = \<lparr>props = p, children = mapChildren (children_p p), refs = Map.empty,
             currentlyTransitioningKeys = {}, keysToEnter = [], keysToStay = [],
             keysToLeave = [], trace = []\<rparr>"

definition componentDidMount :: "'p state \<Rightarrow> error + 'p state" where
  "componentDidMount s = forEach performAppear (keys (children s)) s"

subsection \<open>What React and the children do with the component\<close>

text \<open>
  A state change is followed by a render and by \<^verbatim>\<open>componentDidUpdate\<close>. A
  \<^verbatim>\<open>setState\<close> issued inside \<^verbatim>\<open>componentDidMount\<close> or \<^verbatim>\<open>componentDidUpdate\<close>
  is batched: its render follows the method. A completion callback is called by a child
  at any later moment, outside such a method, and its \<^verbatim>\<open>setState\<close> renders at once.
  Where the model renders although no state has changed, the render changes nothing: it
  rebuilds \<open>refs\<close> from the same children and finds the queues empty.
\<close>

definition rerender :: "'p state \<Rightarrow> error + 'p state" where
  "rerender s = componentDidUpdate (render s)"

definition mount :: "'p props \<Rightarrow> error + 'p state" where
  "mount p = andThen (componentDidMount (render (init p))) rerender"

definition receiveProps :: "'p props \<Rightarrow> 'p state \<Rightarrow> error + 'p state" where
  "receiveProps nextProps s =
     andThen (rerender ((componentWillReceiveProps nextProps s)\<lparr>props := nextProps\<rparr>)) rerender"

definition doneAppearing :: "string \<Rightarrow> 'p state \<Rightarrow> error + 'p state" where
  "doneAppearing k s = andThen (handleDoneAppearing s k) rerender"

definition doneEntering :: "string \<Rightarrow> 'p state \<Rightarrow> error + 'p state" where
  "doneEntering k s = handleDoneEntering s k"

definition doneStaying :: "string \<Rightarrow> 'p state \<Rightarrow> error + 'p state" where
  "doneStaying k s = handleDoneStaying s k"

definition doneLeaving :: "string \<Rightarrow> 'p state \<Rightarrow> error + 'p state" where
  "doneLeaving k s = andThen (handleDoneLeaving s k) rerender"


subsection \<open>Reachable instances and observations\<close>

text \<open>
  The instances the component can be in between two calls from outside: after the mount,
  after new props, after a completion callback of a child.
\<close>

inductive reachable :: "'p state \<Rightarrow> bool" where
  reach_mount: "mount p = Inr s \<Longrightarrow> reachable s"
| reach_props: "reachable s \<Longrightarrow> receiveProps nextProps s = Inr s' \<Longrightarrow> reachable s'"
| reach_appeared: "reachable s \<Longrightarrow> doneAppearing k s = Inr s' \<Longrightarrow> reachable s'"
| reach_entered: "reachable s \<Longrightarrow> doneEntering k s = Inr s' \<Longrightarrow> reachable s'"
| reach_stayed: "reachable s \<Longrightarrow> doneStaying k s = Inr s' \<Longrightarrow> reachable s'"
| reach_left: "reachable s \<Longrightarrow> doneLeaving k s = Inr s' \<Longrightarrow> reachable s'"

text \<open>The transitions begun, in order: the \<open>Perform\<close> events of a trace.\<close>

fun performed :: "event list \<Rightarrow> (kind \<times> string) list" where
  "performed [] = []"
| "performed (Perform t k # es) = (t, k) # performed es"
| "performed (Will t k # es) = performed es"
| "performed (Did t k # es) = performed es"

text \<open>
  What two runs are compared on when one of them calls a \<^verbatim>\<open>componentWill...\<close> hook
  and the other does not: everything but \<open>refs\<close>, the trace without that call.
\<close>

definition coord ::
  "event \<Rightarrow> 'p state \<Rightarrow>
     'p props \<times> 'p child list \<times> string set \<times> string list \<times> string list \<times> string list \<times> event list" where
  "coord w s = (props s, children s, currentlyTransitioningKeys s, keysToEnter s, keysToStay s,
                keysToLeave s, removeAll w (trace s))"

text \<open>No key is queued: the state between two update cycles.\<close>

definition idle :: "'p state \<Rightarrow> bool" where
  "idle s \<longleftrightarrow> keysToEnter s = [] \<and> keysToStay s = [] \<and> keysToLeave s = []"

text \<open>What no transition and no completion handler changes.\<close>

definition fixed :: "'p state \<Rightarrow> 'p props \<times> (string \<rightharpoonup> component) \<times> string list \<times> string list \<times> string list" where
  "fixed s = (props s, refs s, keysToEnter s, keysToStay s, keysToLeave s)"

subsection \<open>Example children\<close>

definition plain :: component where
  "plain = \<lparr>componentWillAppear = False, componentDidAppear = False,
            componentWillEnter = False, componentDidEnter = False,
            componentWillStay = False, componentDidStay = False,
            componentWillLeave = False, componentDidLeave = False\<rparr>"

definition el :: "string \<Rightarrow> nat \<Rightarrow> component \<Rightarrow> nat child" where
  "el k p c = \<lparr>key = k, payload = p, iface = c\<rparr>"

definition propsOf :: "nat child list \<Rightarrow> int \<Rightarrow> nat props" where
  "propsOf cs n = \<lparr>children_p = Some (map Some cs), size_p = n\<rparr>"

definition leaver :: component where
  "leaver = plain\<lparr>componentWillLeave := True\<rparr>"

definition animated :: component where
  "animated = plain\<lparr>componentWillAppear := True, componentWillLeave := True\<rparr>"

definition ex_props0 :: "nat props" where
  "ex_props0 = propsOf [el ''A'' 0 leaver, el ''B'' 0 plain] 2"

definition ex_props1 :: "nat props" where
  "ex_props1 = propsOf [el ''B'' 0 plain] 2"

definition ex_props2 :: "nat props" where
  "ex_props2 = propsOf [el ''A'' 0 leaver, el ''C'' 0 plain] 2"

definition ex_props3 :: "nat props" where
  "ex_props3 = propsOf [el ''B'' 0 plain, el ''C'' 0 plain] 3"

definition ex_props4 :: "nat props" where
  "ex_props4 = propsOf [el ''A'' 0 animated] 2"

definition ex_props5 :: "nat props" where
  "ex_props5 = propsOf [] 2"

definition ex_props6 :: "nat props" where
  "ex_props6 = propsOf [el ''A'' 0 plain, el ''B'' 0 plain, el ''C'' 0 plain] 2"

text \<open>After the mount with \<open>ex_props0\<close>.\<close>

definition ex_state0 :: "nat state" where
  "ex_state0 = \<lparr>props = ex_props0, children = [el ''A'' 0 leaver, el ''B'' 0 plain],
     refs = map_of [(''A'', leaver), (''B'', plain)], currentlyTransitioningKeys = {},
     keysToEnter = [], keysToStay = [], keysToLeave = [],
     trace = [Perform Appear ''A'', Perform Appear ''B'']\<rparr>"

text \<open>Then \<open>ex_props1\<close> arrive: A is leaving and its callback is pending.\<close>

definition ex_state1 :: "nat state" where
  "ex_state1 = \<lparr>props = ex_props1, children = [el ''A'' 0 leaver, el ''B'' 0 plain],
     refs = map_of [(''A'', leaver), (''B'', plain)], currentlyTransitioningKeys = {''A''},
     keysToEnter = [], keysToStay = [], keysToLeave = [],
     trace = [Perform Appear ''A'', Perform Appear ''B'', Perform Stay ''B'',
              Perform Leave ''A'', Will Leave ''A'']\<rparr>"

text \<open>Then \<open>ex_props2\<close> arrive: the merge has three children, A is dropped.\<close>

definition ex_state2 :: "nat state" where
  "ex_state2 = \<lparr>props = ex_props2, children = [el ''C'' 0 plain],
     refs = map_of [(''C'', plain)], currentlyTransitioningKeys = {},
     keysToEnter = [], keysToStay = [], keysToLeave = [],
     trace = [Perform Appear ''A'', Perform Appear ''B'', Perform Stay ''B'',
              Perform Leave ''A'', Will Leave ''A'', Perform Enter ''C'',
              Perform Leave ''B'']\<rparr>"

text \<open>From \<open>ex_state1\<close>, after the leave of A has completed once.\<close>

definition ex_state3 :: "nat state" where
  "ex_state3 = \<lparr>props = ex_props1, children = [el ''B'' 0 plain],
     refs = map_of [(''B'', plain)], currentlyTransitioningKeys = {},
     keysToEnter = [], keysToStay = [], keysToLeave = [],
     trace = [Perform Appear ''A'', Perform Appear ''B'', Perform Stay ''B'',
              Perform Leave ''A'', Will Leave ''A'']\<rparr>"

text \<open>After the mount with \<open>ex_props4\<close>: A is appearing and its callback is pending.\<close>

definition ex_state4 :: "nat state" where
  "ex_state4 = \<lparr>props = ex_props4, children = [el ''A'' 0 animated],
     refs = map_of [(''A'', animated)], currentlyTransitioningKeys = {''A''},
     keysToEnter = [], keysToStay = [], keysToLeave = [],
     trace = [Perform Appear ''A'', Will Appear ''A'']\<rparr>"

text \<open>Then \<open>ex_props5\<close> arrive: nothing is desired while A is still appearing.\<close>

definition ex_state5 :: "nat state" where
  "ex_state5 = \<lparr>props = ex_props5, children = [el ''A'' 0 animated],
     refs = map_of [(''A'', animated)], currentlyTransitioningKeys = {''A''},
     keysToEnter = [], keysToStay = [], keysToLeave = [],
     trace = [Perform Appear ''A'', Will Appear ''A'', Perform Leave ''A'',
              Will Leave ''A'']\<rparr>"

text \<open>After the mount with \<open>ex_props6\<close>: three children at size 2.\<close>

definition ex_state6 :: "nat state" where
  "ex_state6 = \<lparr>props = ex_props6,
     children = [el ''A'' 0 plain, el ''B'' 0 plain, el ''C'' 0 plain],
     refs = map_of [(''A'', plain), (''B'', plain), (''C'', plain)],
     currentlyTransitioningKeys = {},
     keysToEnter = [], keysToStay = [], keysToLeave = [],
     trace = [Perform Appear ''A'', Perform Appear ''B'', Perform Appear ''C'']\<rparr>"

text \<open>Children with a null entry among them.\<close>

definition ex_props7 :: "nat props" where
  "ex_props7 = \<lparr>children_p = Some [Some (el ''A'' 0 plain), None, Some (el ''B'' 0 plain),
                                    Some (el ''C'' 0 plain)], size_p = 2\<rparr>"

text \<open>A child that defines \<^verbatim>\<open>componentWillAppear\<close> and no other hook.\<close>

definition appearer :: component where
  "appearer = plain\<lparr>componentWillAppear := True\<rparr>"

definition ex_props8 :: "nat props" where
  "ex_props8 = propsOf [el ''A'' 0 appearer] 2"

text \<open>After the mount with \<open>ex_props8\<close>: A is appearing and its callback is pending.\<close>

definition ex_state7 :: "nat state" where
  "ex_state7 = \<lparr>props = ex_props8, children = [el ''A'' 0 appearer],
     refs = map_of [(''A'', appearer)], currentlyTransitioningKeys = {''A''},
     keysToEnter = [], keysToStay = [], keysToLeave = [],
     trace = [Perform Appear ''A'', Will Appear ''A'']\<rparr>"

text \<open>
  Then \<open>ex_props5\<close> arrive: nothing is desired, the leave of A begins and, A having no
  \<^verbatim>\<open>componentWillLeave\<close>, completes at once; A is removed and unmounted while its
  appear callback is still pending.
\<close>

definition ex_state8 :: "nat state" where
  "ex_state8 = \<lparr>props = ex_props5, children = [],
     refs = Map.empty, currentlyTransitioningKeys = {},
     keysToEnter = [], keysToStay = [], keysToLeave = [],
     trace = [Perform Appear ''A'', Will Appear ''A'', Perform Leave ''A'']\<rparr>"

section \<open>Properties\<close>

subsection \<open>Arrays of children\<close>

lemma keys_simps:
  "keys [] = []" "keys (x # xs) = key x # keys xs" "keys (xs @ ys) = keys xs @ keys ys"
  by (simp_all add: keys_def)

lemma findIndex_ge: "- 1 \<le> findIndex P xs"
  by (induction xs) (simp_all add: Let_def)

lemma findIndex_nonneg_iff: "0 \<le> findIndex P xs \<longleftrightarrow> (\<exists>x \<in> set xs. P x)"
  by (induction xs) (auto simp: Let_def)

lemma hasChild_iff: "hasChild k cs \<longleftrightarrow> k \<in> set (keys cs)"
  by (auto simp: hasChild_def indexOfChild_def findIndex_nonneg_iff keys_def)

lemma uniqWith_loop_append:
  "uniqWith_loop pred (xs @ ys) acc = uniqWith_loop pred ys (uniqWith_loop pred xs acc)"
  by (induction xs arbitrary: acc) simp_all

lemma list_ex_key: "list_ex (\<lambda>y. key x = key y) acc \<longleftrightarrow> key x \<in> set (keys acc)"
  by (auto simp: list_ex_iff keys_def)

lemma uniqWith_loop_distinct_id:
  "distinct (keys (acc @ xs)) \<Longrightarrow> uniqWith_loop (\<lambda>x y. key x = key y) xs acc = acc @ xs"
proof (induction xs arbitrary: acc)
  case Nil
  then show ?case by simp
next
  case (Cons x xs)
  from Cons.prems have notin: "key x \<notin> set (keys acc)"
    by (simp add: keys_def)
  from Cons.prems have "distinct (keys ((acc @ [x]) @ xs))"
    by (simp add: keys_def)
  then have "uniqWith_loop (\<lambda>x y. key x = key y) xs (acc @ [x]) = (acc @ [x]) @ xs"
    by (rule Cons.IH)
  with notin show ?case by (simp add: list_ex_key)
qed

lemma uniqWith_loop_keys_set:
  "set (keys (uniqWith_loop (\<lambda>x y. key x = key y) xs acc)) = set (keys acc) \<union> set (keys xs)"
proof (induction xs arbitrary: acc)
  case Nil
  then show ?case by (simp add: keys_def)
next
  case (Cons x xs)
  show ?case
    unfolding uniqWith_loop.simps Cons.IH list_ex_key
    by (auto simp: keys_def)
qed

lemma uniqWith_loop_distinct:
  "distinct (keys acc) \<Longrightarrow> distinct (keys (uniqWith_loop (\<lambda>x y. key x = key y) xs acc))"
proof (induction xs arbitrary: acc)
  case Nil
  then show ?case by simp
next
  case (Cons x xs)
  have "distinct (keys (if list_ex (\<lambda>y. key x = key y) acc then acc else acc @ [x]))"
    using Cons.prems by (simp add: list_ex_key) (simp add: keys_def)
  then show ?case
    unfolding uniqWith_loop.simps by (rule Cons.IH)
qed

text \<open>The accumulated result stays in front; what follows comes from the unseen keys.\<close>

lemma uniqWith_loop_prefix:
  "uniqWith_loop (\<lambda>x y. key x = key y) xs acc =
     acc @ uniqWith_loop (\<lambda>x y. key x = key y) [c \<leftarrow> xs. key c \<notin> set (keys acc)] []"
proof (induction xs arbitrary: acc rule: length_induct)
  case (1 xs)
  show ?case
  proof (cases xs)
    case Nil
    then show ?thesis by simp
  next
    case (Cons x rest)
    have IHrest: "\<And>acc'. uniqWith_loop (\<lambda>x y. key x = key y) rest acc' =
        acc' @ uniqWith_loop (\<lambda>x y. key x = key y) [c \<leftarrow> rest. key c \<notin> set (keys acc')] []"
      using 1 Cons by simp
    show ?thesis
    proof (cases "key x \<in> set (keys acc)")
      case True
      then show ?thesis using Cons IHrest [of acc] by (simp add: list_ex_key)
    next
      case False
      let ?f = "[c \<leftarrow> rest. key c \<notin> set (keys acc)]"
      have len: "length ?f < length xs" using Cons by (simp add: le_imp_less_Suc)
      have a: "uniqWith_loop (\<lambda>x y. key x = key y) ?f [x] =
          [x] @ uniqWith_loop (\<lambda>x y. key x = key y) [c \<leftarrow> ?f. key c \<notin> set (keys [x])] []"
        using 1 len by blast
      have b: "[c \<leftarrow> ?f. key c \<notin> set (keys [x])] = [c \<leftarrow> rest. key c \<notin> set (keys (acc @ [x]))]"
        by (auto simp: keys_def intro: filter_cong)
      have "uniqWith_loop (\<lambda>x y. key x = key y) xs acc =
              uniqWith_loop (\<lambda>x y. key x = key y) rest (acc @ [x])"
        using False Cons by (simp add: list_ex_key)
      also have "\<dots> = (acc @ [x]) @ uniqWith_loop (\<lambda>x y. key x = key y)
                                        [c \<leftarrow> rest. key c \<notin> set (keys (acc @ [x]))] []"
        by (rule IHrest)
      also have "\<dots> = acc @ uniqWith_loop (\<lambda>x y. key x = key y) ?f [x]"
        unfolding a b by simp
      also have "uniqWith_loop (\<lambda>x y. key x = key y) ?f [x] =
                 uniqWith_loop (\<lambda>x y. key x = key y) [c \<leftarrow> xs. key c \<notin> set (keys acc)] []"
        using False Cons by simp
      finally show ?thesis .
    qed
  qed
qed

lemma mergeChildren_loop:
  "mergeChildren a b = uniqWith_loop (\<lambda>x y. key x = key y) b (uniqWith (\<lambda>x y. key x = key y) a)"
  by (simp add: mergeChildren_def unionWith_def uniqWith_def uniqWith_loop_append)

lemma uniqWith_distinct_id: "distinct (keys a) \<Longrightarrow> uniqWith (\<lambda>x y. key x = key y) a = a"
  using uniqWith_loop_distinct_id [of "[]" a] by (simp add: uniqWith_def)

lemma mergeChildren_keys_set: "set (keys (mergeChildren a b)) = set (keys a) \<union> set (keys b)"
  by (simp add: mergeChildren_def unionWith_def uniqWith_def uniqWith_loop_keys_set keys_simps)

lemma mergeChildren_distinct: "distinct (keys (mergeChildren a b))"
  by (simp add: mergeChildren_def unionWith_def uniqWith_def uniqWith_loop_distinct keys_simps)

lemma mergeChildren_tracked_first:
  "distinct (keys a) \<Longrightarrow>
   mergeChildren a b = a @ uniqWith (\<lambda>x y. key x = key y) [c \<leftarrow> b. key c \<notin> set (keys a)]"
  unfolding mergeChildren_loop
  by (simp only: uniqWith_distinct_id) (simp add: uniqWith_def uniqWith_loop_prefix [of b a])

lemma uniqWith_filter_distinct:
  "distinct (keys b) \<Longrightarrow> uniqWith (\<lambda>x y. key x = key y) (filter P b) = filter P b"
  by (rule uniqWith_distinct_id) (simp add: keys_def distinct_map_filter)

lemma mergeChildren_same: "distinct (keys a) \<Longrightarrow> mergeChildren a a = a"
  by (simp add: mergeChildren_tracked_first keys_def uniqWith_def)

text \<open>\<^verbatim>\<open>mapChildren\<close> keeps exactly the entries that are not null, in order.\<close>

lemma map_filter_Some: "map Some (List.map_filter (\<lambda>c. c) xs) = filter (\<lambda>x. x \<noteq> None) xs"
  by (induction xs) (auto simp: map_filter_simps split: option.splits)

lemma mapChildren_filter:
  "map Some (mapChildren cs) =
     filter (\<lambda>x. x \<noteq> None) (case cs of None \<Rightarrow> [] | Some xs \<Rightarrow> xs)"
  by (cases cs) (simp_all add: mapChildren_def map_filter_Some)

lemma dropExcess_fits: "int (length cs) \<le> sz \<Longrightarrow> dropExcess sz cs = (None, cs)"
  by (simp add: dropExcess_def)

lemma dropExcess_append: "droppedList (fst (dropExcess sz cs)) @ snd (dropExcess sz cs) = cs"
  by (simp add: dropExcess_def droppedList_def Let_def)

subsection \<open>Receiving props\<close>

lemma markEntering_frame:
  "props (markEntering prev d next s) = props s"
  "children (markEntering prev d next s) = children s"
  "refs (markEntering prev d next s) = refs s"
  "currentlyTransitioningKeys (markEntering prev d next s) = currentlyTransitioningKeys s"
  "keysToLeave (markEntering prev d next s) = keysToLeave s"
  "trace (markEntering prev d next s) = trace s"
  by (induction "next" arbitrary: s; simp add: Let_def)+

lemma markEntering_enter:
  "keysToEnter (markEntering prev d next s) =
     keysToEnter s @ [k \<leftarrow> keys next. \<not> isDropped k d \<and>
                        (\<not> hasChild k prev \<or> k \<in> currentlyTransitioningKeys s)]"
  by (induction "next" arbitrary: s) (simp_all add: Let_def keys_simps)

lemma markEntering_stay:
  "keysToStay (markEntering prev d next s) =
     keysToStay s @ [k \<leftarrow> keys next. \<not> isDropped k d \<and>
                        \<not> (\<not> hasChild k prev \<or> k \<in> currentlyTransitioningKeys s)]"
  by (induction "next" arbitrary: s) (simp_all add: Let_def keys_simps)

lemma markLeaving_frame:
  "props (markLeaving next d prev s) = props s"
  "children (markLeaving next d prev s) = children s"
  "refs (markLeaving next d prev s) = refs s"
  "currentlyTransitioningKeys (markLeaving next d prev s) = currentlyTransitioningKeys s"
  "keysToEnter (markLeaving next d prev s) = keysToEnter s"
  "keysToStay (markLeaving next d prev s) = keysToStay s"
  "trace (markLeaving next d prev s) = trace s"
  by (induction prev arbitrary: s; simp add: Let_def)+

lemma markLeaving_leave:
  "keysToLeave (markLeaving next d prev s) =
     keysToLeave s @ [k \<leftarrow> keys prev. \<not> isDropped k d \<and> \<not> hasChild k next]"
  by (induction prev arbitrary: s) (simp_all add: Let_def keys_simps)

lemmas mark_simps = markEntering_frame markEntering_enter markEntering_stay
  markLeaving_frame markLeaving_leave

lemma cWRP_children:
  "children (componentWillReceiveProps np s) =
     snd (dropExcess (size_p np) (mergeChildren (children s) (mapChildren (children_p np))))"
  by (simp add: componentWillReceiveProps_def Let_def mark_simps split: prod.split)

lemma cWRP_fields:
  "props (componentWillReceiveProps np s) = props s"
  "refs (componentWillReceiveProps np s) = refs s"
  "trace (componentWillReceiveProps np s) = trace s"
  by (simp_all add: componentWillReceiveProps_def Let_def mark_simps split: prod.split)

lemma cWRP_flags:
  "currentlyTransitioningKeys (componentWillReceiveProps np s) =
     currentlyTransitioningKeys s -
       set (keys (droppedList (fst (dropExcess (size_p np)
               (mergeChildren (children s) (mapChildren (children_p np)))))))"
  by (simp add: componentWillReceiveProps_def Let_def mark_simps split: prod.split)

lemma cWRP_enter:
  "keysToEnter (componentWillReceiveProps np s) =
     keysToEnter s @
       [k \<leftarrow> keys (mapChildren (children_p np)).
          \<not> isDropped k (fst (dropExcess (size_p np)
               (mergeChildren (children s) (mapChildren (children_p np))))) \<and>
          (\<not> hasChild k (children s) \<or> k \<in> currentlyTransitioningKeys s)]"
  by (simp add: componentWillReceiveProps_def Let_def mark_simps split: prod.split)

lemma cWRP_stay:
  "keysToStay (componentWillReceiveProps np s) =
     keysToStay s @
       [k \<leftarrow> keys (mapChildren (children_p np)).
          \<not> isDropped k (fst (dropExcess (size_p np)
               (mergeChildren (children s) (mapChildren (children_p np))))) \<and>
          \<not> (\<not> hasChild k (children s) \<or> k \<in> currentlyTransitioningKeys s)]"
  by (simp add: componentWillReceiveProps_def Let_def mark_simps split: prod.split)

lemma cWRP_leave:
  "keysToLeave (componentWillReceiveProps np s) =
     keysToLeave s @
       [k \<leftarrow> keys (children s).
          \<not> isDropped k (fst (dropExcess (size_p np)
               (mergeChildren (children s) (mapChildren (children_p np))))) \<and>
          \<not> hasChild k (mapChildren (children_p np))]"
  by (simp add: componentWillReceiveProps_def Let_def mark_simps split: prod.split)

subsection \<open>Events and results\<close>

lemma performed_append: "performed (xs @ ys) = performed xs @ performed ys"
  by (induction xs rule: performed.induct) simp_all

lemma emit_fields:
  "props (emit e s) = props s" "children (emit e s) = children s" "refs (emit e s) = refs s"
  "currentlyTransitioningKeys (emit e s) = currentlyTransitioningKeys s"
  "keysToEnter (emit e s) = keysToEnter s" "keysToStay (emit e s) = keysToStay s"
  "keysToLeave (emit e s) = keysToLeave s" "trace (emit e s) = trace s @ [e]"
  by (simp_all add: emit_def)

lemma fixed_emit: "fixed (emit e s) = fixed s"
  by (simp add: fixed_def emit_fields)

lemma fixed_upd:
  "fixed (s\<lparr>currentlyTransitioningKeys := f\<rparr>) = fixed s"
  "fixed (s\<lparr>children := c\<rparr>) = fixed s"
  "fixed (s\<lparr>trace := t\<rparr>) = fixed s"
  by (simp_all add: fixed_def)

lemma andThen_simps:
  "andThen (Inl e) f = Inl e" "andThen (Inr x) f = f x"
  by (simp_all add: andThen_def)

lemma andThen_Inr_iff: "andThen r f = Inr y \<longleftrightarrow> (\<exists>x. r = Inr x \<and> f x = Inr y)"
  by (cases r) (simp_all add: andThen_def)

subsection \<open>Leaving\<close>

lemma handleDoneLeaving_Inr:
  "handleDoneLeaving s k = Inr s' \<Longrightarrow>
     fixed s' = fixed s \<and> performed (trace s') = performed (trace s) \<and>
     currentlyTransitioningKeys s' = currentlyTransitioningKeys s - {k} \<and>
     children s' = R_remove (indexOfChild k (children s)) 1 (children s)"
  by (auto simp: handleDoneLeaving_def Let_def fixed_def emit_fields performed_append
           split: option.splits if_splits)

lemma handleDoneLeaving_total: "refs s k \<noteq> None \<Longrightarrow> \<exists>s'. handleDoneLeaving s k = Inr s'"
  by (auto simp: handleDoneLeaving_def Let_def)

lemma performLeave_cases:
  assumes "performLeave s k = Inr s'"
  obtains c where "refs s k = Some c" "componentWillLeave c"
      "s' = emit (Will Leave k) (emit (Perform Leave k)
               (s\<lparr>currentlyTransitioningKeys := insert k (currentlyTransitioningKeys s)\<rparr>))"
    | c where "refs s k = Some c" "\<not> componentWillLeave c"
      "handleDoneLeaving (emit (Perform Leave k)
          (s\<lparr>currentlyTransitioningKeys := insert k (currentlyTransitioningKeys s)\<rparr>)) k = Inr s'"
  using assms
  by (simp add: performLeave_def Let_def emit_fields split: option.splits if_splits)

lemma performLeave_Inr:
  assumes "performLeave s k = Inr s'"
  shows "fixed s' = fixed s \<and> performed (trace s') = performed (trace s) @ [(Leave, k)]"
  using assms
proof (cases rule: performLeave_cases)
  case (1 c)
  then show ?thesis by (simp add: fixed_emit fixed_upd emit_fields performed_append)
next
  case (2 c)
  from handleDoneLeaving_Inr [OF 2(3)] show ?thesis
    by (simp add: fixed_emit fixed_upd emit_fields performed_append)
qed

lemma performLeave_total: "refs s k \<noteq> None \<Longrightarrow> \<exists>s'. performLeave s k = Inr s'"
  by (auto simp: performLeave_def Let_def emit_fields intro!: handleDoneLeaving_total)

subsection \<open>Appearing\<close>

lemma handleDoneAppearing_cases:
  assumes "handleDoneAppearing s k = Inr s'"
  obtains c where "refs s k = Some c" "hasChild k (mapChildren (children_p (props s)))"
      "s' = (if componentDidAppear c then emit (Did Appear k) s else s)
              \<lparr>currentlyTransitioningKeys := currentlyTransitioningKeys s - {k}\<rparr>"
    | c where "refs s k = Some c" "\<not> hasChild k (mapChildren (children_p (props s)))"
      "performLeave ((if componentDidAppear c then emit (Did Appear k) s else s)
              \<lparr>currentlyTransitioningKeys := currentlyTransitioningKeys s - {k}\<rparr>) k = Inr s'"
  using assms
  by (simp add: handleDoneAppearing_def Let_def emit_fields split: option.splits if_splits)

lemma handleDoneAppearing_Inr:
  assumes "handleDoneAppearing s k = Inr s'"
  shows "fixed s' = fixed s \<and>
     (hasChild k (mapChildren (children_p (props s))) \<longrightarrow>
        performed (trace s') = performed (trace s) \<and> children s' = children s \<and>
        currentlyTransitioningKeys s' = currentlyTransitioningKeys s - {k})"
  using assms
proof (cases rule: handleDoneAppearing_cases)
  case (1 c)
  then show ?thesis by (simp add: fixed_emit fixed_upd emit_fields performed_append)
next
  case (2 c)
  from performLeave_Inr [OF 2(3)] 2(2) show ?thesis
    by (simp add: fixed_emit fixed_upd emit_fields performed_append)
qed

lemma handleDoneAppearing_total: "refs s k \<noteq> None \<Longrightarrow> \<exists>s'. handleDoneAppearing s k = Inr s'"
  by (auto simp: handleDoneAppearing_def Let_def emit_fields intro!: performLeave_total)

lemma performAppear_cases:
  assumes "performAppear s k = Inr s'"
  obtains c where "refs s k = Some c" "componentWillAppear c"
      "s' = emit (Will Appear k) (emit (Perform Appear k)
               (s\<lparr>currentlyTransitioningKeys := insert k (currentlyTransitioningKeys s)\<rparr>))"
    | c where "refs s k = Some c" "\<not> componentWillAppear c"
      "handleDoneAppearing (emit (Perform Appear k)
          (s\<lparr>currentlyTransitioningKeys := insert k (currentlyTransitioningKeys s)\<rparr>)) k = Inr s'"
  using assms
  by (simp add: performAppear_def Let_def emit_fields split: option.splits if_splits)

lemma performAppear_Inr:
  assumes "performAppear s k = Inr s'"
  shows "fixed s' = fixed s \<and>
     (hasChild k (mapChildren (children_p (props s))) \<longrightarrow>
        performed (trace s') = performed (trace s) @ [(Appear, k)] \<and> children s' = children s)"
  using assms
proof (cases rule: performAppear_cases)
  case (1 c)
  then show ?thesis by (simp add: fixed_emit fixed_upd emit_fields performed_append)
next
  case (2 c)
  from handleDoneAppearing_Inr [OF 2(3)] show ?thesis
    by (simp add: fixed_emit fixed_upd emit_fields performed_append)
qed

lemma performAppear_total: "refs s k \<noteq> None \<Longrightarrow> \<exists>s'. performAppear s k = Inr s'"
  by (auto simp: performAppear_def Let_def emit_fields intro!: handleDoneAppearing_total)

subsection \<open>Entering\<close>

lemma handleDoneEntering_Inr:
  "handleDoneEntering s k = Inr s' \<Longrightarrow>
     fixed s' = fixed s \<and> performed (trace s') = performed (trace s) \<and>
     children s' = children s \<and>
     currentlyTransitioningKeys s' = currentlyTransitioningKeys s - {k}"
  by (auto simp: handleDoneEntering_def Let_def fixed_def emit_fields performed_append
           split: option.splits if_splits)

lemma performEnter_cases:
  assumes "performEnter s k = Inr s'"
  obtains c where "refs s k = Some c" "componentWillEnter c"
      "s' = emit (Will Enter k) (emit (Perform Enter k)
               (s\<lparr>currentlyTransitioningKeys := insert k (currentlyTransitioningKeys s)\<rparr>))"
    | c where "refs s k = Some c" "\<not> componentWillEnter c"
      "handleDoneEntering (emit (Perform Enter k)
          (s\<lparr>currentlyTransitioningKeys := insert k (currentlyTransitioningKeys s)\<rparr>)) k = Inr s'"
  using assms
  by (simp add: performEnter_def Let_def emit_fields split: option.splits if_splits)

lemma performEnter_Inr:
  assumes "performEnter s k = Inr s'"
  shows "fixed s' = fixed s \<and> performed (trace s') = performed (trace s) @ [(Enter, k)] \<and>
     children s' = children s"
  using assms
proof (cases rule: performEnter_cases)
  case (1 c)
  then show ?thesis by (simp add: fixed_emit fixed_upd emit_fields performed_append)
next
  case (2 c)
  from handleDoneEntering_Inr [OF 2(3)] show ?thesis
    by (simp add: fixed_emit fixed_upd emit_fields performed_append)
qed

lemma performEnter_total: "refs s k \<noteq> None \<Longrightarrow> \<exists>s'. performEnter s k = Inr s'"
  by (auto simp: performEnter_def handleDoneEntering_def Let_def emit_fields)

subsection \<open>Staying\<close>

lemma handleDoneStaying_Inr:
  "handleDoneStaying s k = Inr s' \<Longrightarrow>
     fixed s' = fixed s \<and> performed (trace s') = performed (trace s) \<and>
     children s' = children s \<and>
     currentlyTransitioningKeys s' = currentlyTransitioningKeys s"
  by (auto simp: handleDoneStaying_def Let_def fixed_def emit_fields performed_append
           split: option.splits if_splits)

lemma performStay_cases:
  assumes "performStay s k = Inr s'"
  obtains c where "refs s k = Some c" "componentWillStay c"
      "s' = emit (Will Stay k) (emit (Perform Stay k) s)"
    | c where "refs s k = Some c" "\<not> componentWillStay c"
      "handleDoneStaying (emit (Perform Stay k) s) k = Inr s'"
  using assms
  by (simp add: performStay_def Let_def emit_fields split: option.splits if_splits)

lemma performStay_Inr:
  assumes "performStay s k = Inr s'"
  shows "fixed s' = fixed s \<and> performed (trace s') = performed (trace s) @ [(Stay, k)] \<and>
     children s' = children s \<and> currentlyTransitioningKeys s' = currentlyTransitioningKeys s"
  using assms
proof (cases rule: performStay_cases)
  case (1 c)
  then show ?thesis by (simp add: fixed_emit fixed_upd emit_fields performed_append)
next
  case (2 c)
  from handleDoneStaying_Inr [OF 2(3)] show ?thesis
    by (simp add: fixed_emit fixed_upd emit_fields performed_append)
qed

lemma performStay_total: "refs s k \<noteq> None \<Longrightarrow> \<exists>s'. performStay s k = Inr s'"
  by (auto simp: performStay_def handleDoneStaying_def Let_def emit_fields)

lemma perform_fixed:
  "performEnter s k = Inr s' \<Longrightarrow> fixed s' = fixed s"
  "performStay s k = Inr s' \<Longrightarrow> fixed s' = fixed s"
  "performLeave s k = Inr s' \<Longrightarrow> fixed s' = fixed s"
  "performAppear s k = Inr s' \<Longrightarrow> fixed s' = fixed s"
  by (simp_all add: performEnter_Inr performStay_Inr performLeave_Inr performAppear_Inr)

lemma perform_performed:
  "performEnter s k = Inr s' \<Longrightarrow> performed (trace s') = performed (trace s) @ [(Enter, k)]"
  "performStay s k = Inr s' \<Longrightarrow> performed (trace s') = performed (trace s) @ [(Stay, k)]"
  "performLeave s k = Inr s' \<Longrightarrow> performed (trace s') = performed (trace s) @ [(Leave, k)]"
  by (simp_all add: performEnter_Inr performStay_Inr performLeave_Inr)

subsection \<open>Loops over keys\<close>

lemma forEach_fixed:
  assumes "forEach f ks s = Inr s'"
    and "\<And>s k s'. f s k = Inr s' \<Longrightarrow> fixed s' = fixed s"
  shows "fixed s' = fixed s"
  using assms(1)
proof (induction ks arbitrary: s)
  case Nil
  then show ?case by simp
next
  case (Cons k ks)
  then obtain s1 where s1: "f s k = Inr s1" and rest: "forEach f ks s1 = Inr s'"
    by (auto split: sum.splits)
  from Cons.IH [OF rest] assms(2) [OF s1] show ?case by simp
qed

lemma forEach_performed:
  assumes "forEach f ks s = Inr s'"
    and "\<And>s k s'. f s k = Inr s' \<Longrightarrow> performed (trace s') = performed (trace s) @ [(t, k)]"
  shows "performed (trace s') = performed (trace s) @ map (Pair t) ks"
  using assms(1)
proof (induction ks arbitrary: s)
  case Nil
  then show ?case by simp
next
  case (Cons k ks)
  then obtain s1 where s1: "f s k = Inr s1" and rest: "forEach f ks s1 = Inr s'"
    by (auto split: sum.splits)
  from Cons.IH [OF rest] assms(2) [OF s1] show ?case by simp
qed

lemma forEach_total:
  assumes "\<forall>k \<in> set ks. refs s k \<noteq> None"
    and "\<And>s k. refs s k \<noteq> None \<Longrightarrow> \<exists>s'. f s k = Inr s'"
    and "\<And>s k s'. f s k = Inr s' \<Longrightarrow> fixed s' = fixed s"
  shows "\<exists>s'. forEach f ks s = Inr s'"
  using assms(1)
proof (induction ks arbitrary: s)
  case Nil
  then show ?case by simp
next
  case (Cons k ks)
  then obtain s1 where s1: "f s k = Inr s1" using assms(2) [of s k] by auto
  from assms(3) [OF s1] have "refs s1 = refs s" by (simp add: fixed_def)
  with Cons.prems have "\<forall>k \<in> set ks. refs s1 k \<noteq> None" by simp
  from Cons.IH [OF this] s1 show ?case by simp
qed

lemma forEach_keeps:
  assumes "forEach f ks s = Inr s'"
    and "\<And>s k s'. f s k = Inr s' \<Longrightarrow> Q s' = Q s"
  shows "Q s' = Q s"
  using assms(1)
proof (induction ks arbitrary: s)
  case Nil
  then show ?case by simp
next
  case (Cons k ks)
  then obtain s1 where s1: "f s k = Inr s1" and rest: "forEach f ks s1 = Inr s'"
    by (auto split: sum.splits)
  from Cons.IH [OF rest] assms(2) [OF s1] show ?case by simp
qed

subsection \<open>After an update\<close>

lemma componentDidUpdate_Inr:
  assumes "componentDidUpdate s = Inr s'"
  shows "props s' = props s \<and> refs s' = refs s \<and>
         keysToEnter s' = [] \<and> keysToStay s' = [] \<and> keysToLeave s' = [] \<and>
         performed (trace s') = performed (trace s) @ map (Pair Enter) (keysToEnter s) @
           map (Pair Stay) (keysToStay s) @ map (Pair Leave) (keysToLeave s)"
proof -
  from assms obtain s1 s2 where
    e: "forEach performEnter (keysToEnter s) (s\<lparr>keysToEnter := []\<rparr>) = Inr s1" and
    st: "forEach performStay (keysToStay s1) (s1\<lparr>keysToStay := []\<rparr>) = Inr s2" and
    l: "forEach performLeave (keysToLeave s2) (s2\<lparr>keysToLeave := []\<rparr>) = Inr s'"
    by (auto simp: componentDidUpdate_def andThen_Inr_iff)
  have f1: "fixed s1 = fixed (s\<lparr>keysToEnter := []\<rparr>)"
    using e by (rule forEach_fixed) (rule perform_fixed)
  have f2: "fixed s2 = fixed (s1\<lparr>keysToStay := []\<rparr>)"
    using st by (rule forEach_fixed) (rule perform_fixed)
  have f3: "fixed s' = fixed (s2\<lparr>keysToLeave := []\<rparr>)"
    using l by (rule forEach_fixed) (rule perform_fixed)
  have p1: "performed (trace s1) = performed (trace s) @ map (Pair Enter) (keysToEnter s)"
    using forEach_performed [OF e perform_performed(1)] by simp
  have p2: "performed (trace s2) = performed (trace s1) @ map (Pair Stay) (keysToStay s1)"
    using forEach_performed [OF st perform_performed(2)] by simp
  have p3: "performed (trace s') = performed (trace s2) @ map (Pair Leave) (keysToLeave s2)"
    using forEach_performed [OF l perform_performed(3)] by simp
  from f1 f2 f3 p1 p2 p3 show ?thesis by (simp add: fixed_def)
qed

lemma forEach_perform_total:
  "\<forall>k \<in> set ks. refs s k \<noteq> None \<Longrightarrow> \<exists>s'. forEach performEnter ks s = Inr s'"
  "\<forall>k \<in> set ks. refs s k \<noteq> None \<Longrightarrow> \<exists>s'. forEach performStay ks s = Inr s'"
  "\<forall>k \<in> set ks. refs s k \<noteq> None \<Longrightarrow> \<exists>s'. forEach performLeave ks s = Inr s'"
  "\<forall>k \<in> set ks. refs s k \<noteq> None \<Longrightarrow> \<exists>s'. forEach performAppear ks s = Inr s'"
  subgoal by (rule forEach_total [where f = performEnter]) (assumption, rule performEnter_total, assumption, rule perform_fixed)
  subgoal by (rule forEach_total [where f = performStay]) (assumption, rule performStay_total, assumption, rule perform_fixed)
  subgoal by (rule forEach_total [where f = performLeave]) (assumption, rule performLeave_total, assumption, rule perform_fixed)
  subgoal by (rule forEach_total [where f = performAppear]) (assumption, rule performAppear_total, assumption, rule perform_fixed)
  done

lemma componentDidUpdate_total:
  assumes "\<forall>k \<in> set (keysToEnter s @ keysToStay s @ keysToLeave s). refs s k \<noteq> None"
  shows "\<exists>s'. componentDidUpdate s = Inr s'"
proof -
  have "\<forall>k \<in> set (keysToEnter s). refs (s\<lparr>keysToEnter := []\<rparr>) k \<noteq> None" using assms by simp
  then obtain s1 where e: "forEach performEnter (keysToEnter s) (s\<lparr>keysToEnter := []\<rparr>) = Inr s1"
    using forEach_perform_total(1) by blast
  have f1: "fixed s1 = fixed (s\<lparr>keysToEnter := []\<rparr>)"
    using e by (rule forEach_fixed) (rule perform_fixed)
  then have "\<forall>k \<in> set (keysToStay s1). refs (s1\<lparr>keysToStay := []\<rparr>) k \<noteq> None"
    using assms by (simp add: fixed_def)
  then obtain s2 where st: "forEach performStay (keysToStay s1) (s1\<lparr>keysToStay := []\<rparr>) = Inr s2"
    using forEach_perform_total(2) by blast
  have f2: "fixed s2 = fixed (s1\<lparr>keysToStay := []\<rparr>)"
    using st by (rule forEach_fixed) (rule perform_fixed)
  with f1 have "\<forall>k \<in> set (keysToLeave s2). refs (s2\<lparr>keysToLeave := []\<rparr>) k \<noteq> None"
    using assms by (simp add: fixed_def)
  then obtain s3 where l: "forEach performLeave (keysToLeave s2) (s2\<lparr>keysToLeave := []\<rparr>) = Inr s3"
    using forEach_perform_total(3) by blast
  from e st l show ?thesis by (simp add: componentDidUpdate_def andThen_simps)
qed

lemma componentDidUpdate_idle:
  "keysToEnter s = [] \<Longrightarrow> keysToStay s = [] \<Longrightarrow> keysToLeave s = [] \<Longrightarrow>
   componentDidUpdate s = Inr s"
  by (simp add: componentDidUpdate_def andThen_simps)

subsection \<open>Rendering and reachable instances\<close>

lemma render_fields:
  "props (render s) = props s" "children (render s) = children s"
  "currentlyTransitioningKeys (render s) = currentlyTransitioningKeys s"
  "keysToEnter (render s) = keysToEnter s" "keysToStay (render s) = keysToStay s"
  "keysToLeave (render s) = keysToLeave s" "trace (render s) = trace s"
  by (simp_all add: render_def)

lemma refs_render: "refs (render s) k \<noteq> None \<longleftrightarrow> k \<in> set (keys (children s))"
  by (simp add: render_def map_of_eq_None_iff keys_def image_image)

lemma refs_render_None: "refs (render s) k = None \<longleftrightarrow> k \<notin> set (keys (children s))"
  using refs_render [of s k] by blast

lemma refs_render_Some: "(\<exists>c. refs (render s) k = Some c) \<longleftrightarrow> k \<in> set (keys (children s))"
  using refs_render [of s k] by auto

lemma render_cong: "children s' = children s \<Longrightarrow> refs (render s') = refs (render s)"
  by (simp add: render_def)

lemma idle_render: "idle (render s) = idle s"
  by (simp add: idle_def render_fields)

lemma rerender_idle: "idle s \<Longrightarrow> rerender s = Inr (render s)"
  by (simp add: rerender_def idle_def componentDidUpdate_idle render_fields)

lemma componentDidUpdate_idle_after: "componentDidUpdate s = Inr s' \<Longrightarrow> idle s'"
  by (simp add: idle_def componentDidUpdate_Inr)

lemma rerender_idle_after: "rerender s = Inr s' \<Longrightarrow> idle s'"
  by (simp add: rerender_def componentDidUpdate_idle_after)

lemma fixed_idle: "fixed s' = fixed s \<Longrightarrow> idle s' = idle s"
  by (simp add: fixed_def idle_def)

lemma reachable_idle: "reachable s \<Longrightarrow> idle s"
proof (induction rule: reachable.induct)
  case (reach_mount p s)
  then show ?case by (auto simp: mount_def andThen_Inr_iff dest: rerender_idle_after)
next
  case (reach_props s nextProps s')
  then show ?case by (auto simp: receiveProps_def andThen_Inr_iff dest: rerender_idle_after)
next
  case (reach_appeared s k s')
  then show ?case by (auto simp: doneAppearing_def andThen_Inr_iff dest: rerender_idle_after)
next
  case (reach_entered s k s')
  then show ?case using handleDoneEntering_Inr [of s k s'] fixed_idle [of s' s]
    by (simp add: doneEntering_def)
next
  case (reach_stayed s k s')
  then show ?case using handleDoneStaying_Inr [of s k s'] fixed_idle [of s' s]
    by (simp add: doneStaying_def)
next
  case (reach_left s k s')
  then show ?case by (auto simp: doneLeaving_def andThen_Inr_iff dest: rerender_idle_after)
qed

subsection \<open>The mount\<close>

lemma forEach_performAppear:
  "forEach performAppear ks s = Inr s' \<Longrightarrow>
   \<forall>k \<in> set ks. hasChild k (mapChildren (children_p (props s))) \<Longrightarrow>
   children s' = children s \<and> fixed s' = fixed s \<and>
   performed (trace s') = performed (trace s) @ map (Pair Appear) ks"
proof (induction ks arbitrary: s)
  case Nil
  then show ?case by simp
next
  case (Cons k ks)
  from Cons.prems(1) obtain s1 where s1: "performAppear s k = Inr s1"
    and rest: "forEach performAppear ks s1 = Inr s'"
    by (auto split: sum.splits)
  from Cons.prems(2) have hk: "hasChild k (mapChildren (children_p (props s)))" by simp
  from performAppear_Inr [OF s1] hk
  have a: "fixed s1 = fixed s" "children s1 = children s"
    "performed (trace s1) = performed (trace s) @ [(Appear, k)]" by simp_all
  from a(1) have "props s1 = props s" by (simp add: fixed_def)
  with Cons.prems(2) have "\<forall>k \<in> set ks. hasChild k (mapChildren (children_p (props s1)))" by simp
  from Cons.IH [OF rest this] a show ?case by simp
qed

lemma init_fields:
  "props (init p) = p" "children (init p) = mapChildren (children_p p)"
  "keysToEnter (init p) = []" "keysToStay (init p) = []" "keysToLeave (init p) = []"
  "trace (init p) = []" "currentlyTransitioningKeys (init p) = {}"
  by (simp_all add: init_def)

lemma mount_result:
  "\<exists>s. mount p = Inr s \<and> props s = p \<and> children s = mapChildren (children_p p) \<and>
       performed (trace s) = map (Pair Appear) (keys (mapChildren (children_p p))) \<and>
       (\<forall>k. (refs s k \<noteq> None) = (k \<in> set (keys (mapChildren (children_p p)))))"
proof -
  let ?s0 = "render (init p)"
  let ?ks = "keys (children ?s0)"
  have "\<forall>k \<in> set ?ks. refs ?s0 k \<noteq> None"
    by (simp add: refs_render_Some render_fields)
  then obtain s1 where s1: "forEach performAppear ?ks ?s0 = Inr s1"
    using forEach_perform_total(4) by blast
  have "\<forall>k \<in> set ?ks. hasChild k (mapChildren (children_p (props ?s0)))"
    by (simp add: render_fields init_fields hasChild_iff)
  from forEach_performAppear [OF s1 this]
  have a: "children s1 = children ?s0" "fixed s1 = fixed ?s0"
    "performed (trace s1) = map (Pair Appear) ?ks"
    by (simp_all add: render_fields init_fields)
  from a(2) have "idle s1" by (simp add: fixed_def idle_def render_fields init_fields)
  then have r: "rerender s1 = Inr (render s1)" by (rule rerender_idle)
  have m: "mount p = Inr (render s1)"
    using s1 r by (simp add: mount_def componentDidMount_def andThen_simps)
  from a(2) have pr: "props s1 = p" by (simp add: fixed_def render_fields init_fields)
  show ?thesis
    using m a pr by (simp add: render_fields init_fields refs_render_Some)
qed

subsection \<open>An update cycle\<close>

lemma isDropped_iff: "isDropped k d \<longleftrightarrow> k \<in> set (keys (droppedList d))"
  by (cases d) (simp_all add: isDropped_def droppedList_def hasChild_iff keys_simps)

lemma kept_keys:
  assumes "k \<in> set (keys prev) \<union> set (keys nxt)"
    and "\<not> isDropped k (fst (dropExcess sz (mergeChildren prev nxt)))"
  shows "k \<in> set (keys (snd (dropExcess sz (mergeChildren prev nxt))))"
proof -
  let ?m = "mergeChildren prev nxt"
  have "set (keys ?m) = set (keys (droppedList (fst (dropExcess sz ?m)))) \<union>
                        set (keys (snd (dropExcess sz ?m)))"
    using dropExcess_append [of sz ?m] keys_simps(3) set_append by metis
  with assms show ?thesis
    unfolding mergeChildren_keys_set isDropped_iff by blast
qed

lemma queued_keys_kept:
  assumes "idle s"
    and "k \<in> set (keysToEnter (componentWillReceiveProps np s) @
                   keysToStay (componentWillReceiveProps np s) @
                   keysToLeave (componentWillReceiveProps np s))"
  shows "k \<in> set (keys (children (componentWillReceiveProps np s)))"
proof -
  from assms have
    "k \<in> set (keys (children s)) \<union> set (keys (mapChildren (children_p np))) \<and>
     \<not> isDropped k (fst (dropExcess (size_p np)
               (mergeChildren (children s) (mapChildren (children_p np)))))"
    by (auto simp: idle_def cWRP_enter cWRP_stay cWRP_leave)
  then show ?thesis
    by (simp add: cWRP_children kept_keys)
qed

lemma receiveProps_cycle:
  assumes "idle s"
  shows "\<exists>s1. rerender ((componentWillReceiveProps np s)\<lparr>props := np\<rparr>) = Inr s1 \<and>
              receiveProps np s = Inr (render s1) \<and>
              performed (trace s1) = performed (trace s) @
                map (Pair Enter) (keysToEnter (componentWillReceiveProps np s)) @
                map (Pair Stay) (keysToStay (componentWillReceiveProps np s)) @
                map (Pair Leave) (keysToLeave (componentWillReceiveProps np s))"
proof -
  let ?c = "componentWillReceiveProps np s"
  let ?r = "render (?c\<lparr>props := np\<rparr>)"
  have q: "keysToEnter ?r = keysToEnter ?c" "keysToStay ?r = keysToStay ?c"
    "keysToLeave ?r = keysToLeave ?c" "trace ?r = trace s" "children ?r = children ?c"
    by (simp_all add: render_fields cWRP_fields)
  have "\<forall>k \<in> set (keysToEnter ?r @ keysToStay ?r @ keysToLeave ?r). refs ?r k \<noteq> None"
  proof
    fix k assume "k \<in> set (keysToEnter ?r @ keysToStay ?r @ keysToLeave ?r)"
    then have "k \<in> set (keysToEnter ?c @ keysToStay ?c @ keysToLeave ?c)" by (simp add: q)
    from queued_keys_kept [OF assms this] show "refs ?r k \<noteq> None"
      by (simp add: refs_render_Some)
  qed
  then obtain s1 where s1: "componentDidUpdate ?r = Inr s1"
    using componentDidUpdate_total by blast
  from componentDidUpdate_idle_after [OF s1] have "rerender s1 = Inr (render s1)"
    by (rule rerender_idle)
  with s1 have "receiveProps np s = Inr (render s1)"
    by (simp add: receiveProps_def rerender_def andThen_simps)
  with s1 componentDidUpdate_Inr [OF s1] show ?thesis
    by (simp add: rerender_def q)
qed

subsection \<open>The example runs\<close>

lemmas eval_defs = mount_def receiveProps_def rerender_def componentDidMount_def
  componentDidUpdate_def componentWillReceiveProps_def render_def init_def
  performAppear_def performEnter_def performStay_def performLeave_def
  handleDoneAppearing_def handleDoneEntering_def handleDoneStaying_def handleDoneLeaving_def
  doneAppearing_def doneEntering_def doneStaying_def doneLeaving_def
  andThen_def emit_def mapChildren_def mergeChildren_def unionWith_def uniqWith_def
  dropExcess_def droppedList_def isDropped_def hasChild_def indexOfChild_def R_remove_def
  keys_def el_def propsOf_def plain_def leaver_def animated_def appearer_def map_filter_simps Let_def

lemmas ex_defs = ex_props0_def ex_props1_def ex_props2_def ex_props3_def ex_props4_def
  ex_props5_def ex_props6_def ex_state0_def ex_state1_def ex_state2_def ex_state3_def
  ex_state4_def ex_state5_def ex_props7_def ex_props8_def ex_state7_def ex_state8_def

lemma ex_mount0: "mount ex_props0 = Inr ex_state0"
  by (simp add: ex_defs eval_defs)

lemma ex_update1: "receiveProps ex_props1 ex_state0 = Inr ex_state1"
  by (simp add: ex_defs eval_defs)

lemma ex_update2: "receiveProps ex_props2 ex_state1 = Inr ex_state2"
  by (simp add: ex_defs eval_defs)

lemma ex_left3: "doneLeaving ''A'' ex_state1 = Inr ex_state3"
  by (simp add: ex_defs eval_defs)

lemma ex_mount4: "mount ex_props4 = Inr ex_state4"
  by (simp add: ex_defs eval_defs)

lemma ex_update5: "receiveProps ex_props5 ex_state4 = Inr ex_state5"
  by (simp add: ex_defs eval_defs)

lemma ex_reachable:
  "reachable ex_state0" "reachable ex_state1" "reachable ex_state2" "reachable ex_state3"
  "reachable ex_state4" "reachable ex_state5"
proof -
  show r0: "reachable ex_state0" using ex_mount0 by (rule reach_mount)
  show r1: "reachable ex_state1" using r0 ex_update1 by (rule reach_props)
  show "reachable ex_state2" using r1 ex_update2 by (rule reach_props)
  show "reachable ex_state3" using r1 ex_left3 by (rule reach_left)
  show r4: "reachable ex_state4" using ex_mount4 by (rule reach_mount)
  show "reachable ex_state5" using r4 ex_update5 by (rule reach_props)
qed




lemma ex_mount6: "mount ex_props6 = Inr ex_state6"
  by (simp add: ex_state6_def ex_defs eval_defs)

lemma componentDidUpdate_stays:
  assumes "keysToEnter s = []" "keysToLeave s = []" "componentDidUpdate s = Inr s'"
  shows "children s' = children s \<and> currentlyTransitioningKeys s' = currentlyTransitioningKeys s"
proof -
  from assms obtain s2 where
    st: "forEach performStay (keysToStay s) (s\<lparr>keysToEnter := [], keysToStay := []\<rparr>) = Inr s2" and
    l: "forEach performLeave (keysToLeave s2) (s2\<lparr>keysToLeave := []\<rparr>) = Inr s'"
    by (auto simp: componentDidUpdate_def andThen_Inr_iff)
  have "fixed s2 = fixed (s\<lparr>keysToEnter := [], keysToStay := []\<rparr>)"
    using st by (rule forEach_fixed) (rule perform_fixed)
  with assms(2) have "keysToLeave s2 = []" by (simp add: fixed_def)
  with l have s': "s' = s2\<lparr>keysToLeave := []\<rparr>" by simp
  have "(children s2, currentlyTransitioningKeys s2) =
        (children (s\<lparr>keysToEnter := [], keysToStay := []\<rparr>),
         currentlyTransitioningKeys (s\<lparr>keysToEnter := [], keysToStay := []\<rparr>))"
    using st by (rule forEach_keeps) (simp add: performStay_Inr)
  with s' show ?thesis by simp
qed

subsection \<open>Removal and repeated completions\<close>

lemma findIndex_found:
  "\<exists>x \<in> set xs. P x \<Longrightarrow> findIndex P xs = int (length (takeWhile (\<lambda>x. \<not> P x) xs))"
proof (induction xs)
  case Nil
  then show ?case by simp
next
  case (Cons x xs)
  show ?case
  proof (cases "P x")
    case True
    then show ?thesis by simp
  next
    case False
    with Cons.prems have "\<exists>x \<in> set xs. P x" by simp
    from Cons.IH [OF this] False show ?thesis by (simp add: Let_def)
  qed
qed

lemma R_remove_subset: "set (R_remove i n xs) \<subseteq> set xs"
proof -
  have "set (take a xs @ drop b xs) \<subseteq> set xs" for a b
    using set_take_subset [of a xs] set_drop_subset [of b xs] by auto
  then show ?thesis by (simp only: R_remove_def Let_def)
qed

lemma R_remove_bounds:
  assumes "m \<le> length xs"
  shows "nat (min (int m) (int (length xs))) = m"
    and "drop (nat (min (int (length xs)) (int m + int c))) xs = drop (m + c) xs"
proof -
  show "nat (min (int m) (int (length xs))) = m" using assms by simp
  have "min (int (length xs)) (int m + int c) = int (min (length xs) (m + c))"
    by (simp add: min_def)
  then have "nat (min (int (length xs)) (int m + int c)) = min (length xs) (m + c)"
    by (simp only: nat_int)
  moreover have "drop (min (length xs) (m + c)) xs = drop (m + c) xs"
    by (simp add: min_def)
  ultimately show "drop (nat (min (int (length xs)) (int m + int c))) xs = drop (m + c) xs"
    by (simp only:)
qed

lemma R_remove_found:
  assumes "hasChild k cs"
  shows "R_remove (indexOfChild k cs) 1 cs =
           takeWhile (\<lambda>c. key c \<noteq> k) cs @ tl (dropWhile (\<lambda>c. key c \<noteq> k) cs)"
proof -
  let ?Q = "\<lambda>c. key c \<noteq> k"
  let ?n = "length (takeWhile ?Q cs)"
  from assms have ex: "\<exists>c \<in> set cs. key c = k"
    by (auto simp: hasChild_iff keys_def)
  then have i: "indexOfChild k cs = int ?n"
    unfolding indexOfChild_def by (rule findIndex_found [where P = "\<lambda>c. key c = k"])
  have le: "?n \<le> length cs" by (rule length_takeWhile_le)
  have t: "take ?n cs = takeWhile ?Q cs" by (rule takeWhile_eq_take [symmetric])
  have "tl (dropWhile ?Q cs) = tl (drop ?n cs)"
    by (rule arg_cong [OF dropWhile_eq_drop])
  also have "\<dots> = drop (Suc ?n) cs"
    by (simp only: tl_drop drop_Suc)
  finally have d: "drop (?n + 1) cs = tl (dropWhile ?Q cs)" by simp
  have "R_remove (int ?n) 1 cs = take ?n cs @ drop (?n + 1) cs"
    using le by (simp only: R_remove_def Let_def R_remove_bounds)
  with i t d show ?thesis by simp
qed

lemma R_remove_key:
  assumes "distinct (keys cs)"
  shows "k \<notin> set (keys (R_remove (indexOfChild k cs) 1 cs))"
proof (cases "hasChild k cs")
  case False
  then have "k \<notin> set (keys cs)" by (simp add: hasChild_iff)
  with R_remove_subset [of "indexOfChild k cs" 1 cs] show ?thesis
    by (auto simp: keys_def)
next
  case True
  let ?Q = "\<lambda>c. key c \<noteq> k"
  from True have "\<exists>c \<in> set cs. \<not> ?Q c" by (auto simp: hasChild_iff keys_def)
  then have ne: "dropWhile ?Q cs \<noteq> []" by (simp add: dropWhile_eq_Nil_conv)
  then obtain x rest where xr: "dropWhile ?Q cs = x # rest" by (cases "dropWhile ?Q cs") auto
  from hd_dropWhile [OF ne] xr have kx: "key x = k" by simp
  have "cs = takeWhile ?Q cs @ x # rest" using xr takeWhile_dropWhile_id [of ?Q cs] by simp
  with assms have "distinct (keys (takeWhile ?Q cs @ x # rest))" by simp
  with kx have "k \<notin> set (keys rest)" by (auto simp: keys_def)
  moreover have "k \<notin> set (keys (takeWhile ?Q cs))"
    by (auto simp: keys_def dest: set_takeWhileD)
  ultimately show ?thesis
    using R_remove_found [OF True] xr by (simp add: keys_simps)
qed

lemma handleDoneLeaving_removes:
  "handleDoneLeaving s k = Inr s' \<Longrightarrow> distinct (keys (children s)) \<Longrightarrow>
     k \<notin> set (keys (children s'))"
  using handleDoneLeaving_Inr [of s k s'] R_remove_key [of "children s" k] by simp

lemma handleDone_undefined:
  "refs s k = None \<Longrightarrow> handleDoneAppearing s k = Inl TypeError"
  "refs s k = None \<Longrightarrow> handleDoneEntering s k = Inl TypeError"
  "refs s k = None \<Longrightarrow> handleDoneStaying s k = Inl TypeError"
  "refs s k = None \<Longrightarrow> handleDoneLeaving s k = Inl TypeError"
  by (simp_all add: handleDoneAppearing_def handleDoneEntering_def handleDoneStaying_def
        handleDoneLeaving_def)

lemma reachable_refs: "reachable s \<Longrightarrow> refs (render s) = refs s"
proof (induction rule: reachable.induct)
  case (reach_mount p s)
  then obtain s1 where a: "componentDidMount (render (init p)) = Inr s1" and b: "rerender s1 = Inr s"
    by (auto simp: mount_def andThen_Inr_iff)
  from a have "fixed s1 = fixed (render (init p))"
    unfolding componentDidMount_def by (rule forEach_fixed) (rule perform_fixed)
  then have "idle s1" by (simp add: fixed_def idle_def render_fields init_fields)
  from rerender_idle [OF this] b show ?case by (auto simp: render_def)
next
  case (reach_props s nextProps s')
  from receiveProps_cycle [OF reachable_idle [OF reach_props(1)], of nextProps] reach_props(2)
  show ?case by (auto simp: render_def)
next
  case (reach_appeared s k s')
  then obtain s1 where a: "handleDoneAppearing s k = Inr s1" and b: "rerender s1 = Inr s'"
    by (auto simp: doneAppearing_def andThen_Inr_iff)
  from handleDoneAppearing_Inr [OF a] reachable_idle [OF reach_appeared(1)]
  have "idle s1" using fixed_idle by blast
  from rerender_idle [OF this] b show ?case by (auto simp: render_def)
next
  case (reach_entered s k s')
  from handleDoneEntering_Inr [of s k s'] reach_entered
  show ?case by (simp add: doneEntering_def fixed_def render_def)
next
  case (reach_stayed s k s')
  from handleDoneStaying_Inr [of s k s'] reach_stayed
  show ?case by (simp add: doneStaying_def fixed_def render_def)
next
  case (reach_left s k s')
  then obtain s1 where a: "handleDoneLeaving s k = Inr s1" and b: "rerender s1 = Inr s'"
    by (auto simp: doneLeaving_def andThen_Inr_iff)
  from handleDoneLeaving_Inr [OF a] reachable_idle [OF reach_left(1)]
  have "idle s1" using fixed_idle by blast
  from rerender_idle [OF this] b show ?case by (auto simp: render_def)
qed

lemma entered_twice:
  assumes "doneEntering k s = Inr s1"
  shows "\<exists>s2. doneEntering k s1 = Inr s2 \<and> children s2 = children s1 \<and>
              currentlyTransitioningKeys s2 = currentlyTransitioningKeys s1"
proof -
  from assms have a: "handleDoneEntering s k = Inr s1" by (simp add: doneEntering_def)
  then obtain c where c: "refs s k = Some c"
    by (auto simp: handleDoneEntering_def split: option.splits)
  from handleDoneEntering_Inr [OF a] c have r: "refs s1 k = Some c"
    and f: "k \<notin> currentlyTransitioningKeys s1" by (simp_all add: fixed_def)
  from r obtain s2 where s2: "handleDoneEntering s1 k = Inr s2"
    by (auto simp: handleDoneEntering_def Let_def)
  from handleDoneEntering_Inr [OF s2] f s2 show ?thesis
    by (simp add: doneEntering_def)
qed

lemma stayed_twice:
  assumes "doneStaying k s = Inr s1"
  shows "\<exists>s2. doneStaying k s1 = Inr s2 \<and> children s2 = children s1 \<and>
              currentlyTransitioningKeys s2 = currentlyTransitioningKeys s1"
proof -
  from assms have a: "handleDoneStaying s k = Inr s1" by (simp add: doneStaying_def)
  then obtain c where c: "refs s k = Some c"
    by (auto simp: handleDoneStaying_def split: option.splits)
  from handleDoneStaying_Inr [OF a] c have r: "refs s1 k = Some c" by (simp add: fixed_def)
  from r obtain s2 where s2: "handleDoneStaying s1 k = Inr s2"
    by (auto simp: handleDoneStaying_def Let_def)
  from handleDoneStaying_Inr [OF s2] s2 show ?thesis
    by (simp add: doneStaying_def)
qed

lemma appeared_twice:
  assumes "reachable s" and "doneAppearing k s = Inr s1"
    and "hasChild k (mapChildren (children_p (props s)))"
  shows "\<exists>s2. doneAppearing k s1 = Inr s2 \<and> children s2 = children s1 \<and>
              currentlyTransitioningKeys s2 = currentlyTransitioningKeys s1"
proof -
  from assms(2) obtain t where a: "handleDoneAppearing s k = Inr t" and b: "rerender t = Inr s1"
    by (auto simp: doneAppearing_def andThen_Inr_iff)
  from a obtain c where c: "refs s k = Some c"
    by (auto simp: handleDoneAppearing_def split: option.splits)
  from handleDoneAppearing_Inr [OF a] assms(3)
  have t: "fixed t = fixed s" "children t = children s"
    "currentlyTransitioningKeys t = currentlyTransitioningKeys s - {k}" by simp_all
  from t(1) reachable_idle [OF assms(1)] have it: "idle t" using fixed_idle by blast
  with b have s1: "s1 = render t" by (simp add: rerender_idle)
  have "refs s1 = refs (render s)" unfolding s1 using t(2) by (rule render_cong)
  with reachable_refs [OF assms(1)] c have r1: "refs s1 k = Some c" by simp
  have p1: "props s1 = props s" using t(1) by (simp add: s1 render_fields fixed_def)
  from r1 obtain u where u: "handleDoneAppearing s1 k = Inr u"
    using handleDoneAppearing_total [of s1 k] by auto
  from handleDoneAppearing_Inr [OF u] assms(3) p1
  have u': "fixed u = fixed s1" "children u = children s1"
    "currentlyTransitioningKeys u = currentlyTransitioningKeys s1 - {k}" by simp_all
  have "idle s1" using it by (simp add: s1 idle_render)
  with u'(1) have "idle u" using fixed_idle by blast
  then have "rerender u = Inr (render u)" by (rule rerender_idle)
  with u have "doneAppearing k s1 = Inr (render u)"
    by (simp add: doneAppearing_def andThen_simps)
  moreover have "currentlyTransitioningKeys s1 = currentlyTransitioningKeys s - {k}"
    using t(3) by (simp add: s1 render_fields)
  ultimately show ?thesis using u' by (auto simp: render_fields)
qed

text \<open>
  After a leave has completed the key is gone and its child unmounted: whatever arrives
  for the key afterwards finds no \<^verbatim>\<open>this.refs[key]\<close>.
\<close>

lemma left_twice:
  assumes "reachable s" and "doneLeaving k s = Inr s1" and "distinct (keys (children s))"
  shows "doneLeaving k s1 = Inl TypeError \<and> k \<notin> set (keys (children s1))"
proof -
  from assms(2) obtain t where a: "handleDoneLeaving s k = Inr t" and b: "rerender t = Inr s1"
    by (auto simp: doneLeaving_def andThen_Inr_iff)
  from handleDoneLeaving_Inr [OF a] reachable_idle [OF assms(1)]
  have "idle t" using fixed_idle by blast
  with b have s1: "s1 = render t" by (simp add: rerender_idle)
  from handleDoneLeaving_removes [OF a assms(3)] have gone: "k \<notin> set (keys (children t))" .
  then have "refs s1 k = None" by (simp add: s1 refs_render_None)
  then have "handleDoneLeaving s1 k = Inl TypeError" by (rule handleDone_undefined)
  with gone show ?thesis by (simp add: doneLeaving_def andThen_simps s1 render_fields)
qed

subsection \<open>Withdrawn keys are leaving\<close>










subsection \<open>Children without a hook\<close>

lemma no_hook_enter:
  assumes "refs s k = Some c" "\<not> componentWillEnter c"
  shows "performEnter s k =
           handleDoneEntering (emit (Perform Enter k)
             (s\<lparr>currentlyTransitioningKeys := insert k (currentlyTransitioningKeys s)\<rparr>)) k"
    and "map_sum id (coord (Will Enter k)) (performEnter s k) =
         map_sum id (coord (Will Enter k))
           (andThen (performEnter (s\<lparr>refs := (refs s)(k \<mapsto> c\<lparr>componentWillEnter := True\<rparr>)\<rparr>) k)
              (\<lambda>t. handleDoneEntering t k))"
  using assms
  by (simp_all add: performEnter_def handleDoneEntering_def Let_def emit_def andThen_def coord_def)

lemma no_hook_stay:
  assumes "refs s k = Some c" "\<not> componentWillStay c"
  shows "performStay s k = handleDoneStaying (emit (Perform Stay k) s) k"
    and "map_sum id (coord (Will Stay k)) (performStay s k) =
         map_sum id (coord (Will Stay k))
           (andThen (performStay (s\<lparr>refs := (refs s)(k \<mapsto> c\<lparr>componentWillStay := True\<rparr>)\<rparr>) k)
              (\<lambda>t. handleDoneStaying t k))"
  using assms
  by (simp_all add: performStay_def handleDoneStaying_def Let_def emit_def andThen_def coord_def)

lemma no_hook_leave:
  assumes "refs s k = Some c" "\<not> componentWillLeave c"
  shows "performLeave s k =
           handleDoneLeaving (emit (Perform Leave k)
             (s\<lparr>currentlyTransitioningKeys := insert k (currentlyTransitioningKeys s)\<rparr>)) k"
    and "map_sum id (coord (Will Leave k)) (performLeave s k) =
         map_sum id (coord (Will Leave k))
           (andThen (performLeave (s\<lparr>refs := (refs s)(k \<mapsto> c\<lparr>componentWillLeave := True\<rparr>)\<rparr>) k)
              (\<lambda>t. handleDoneLeaving t k))"
  using assms
  by (simp_all add: performLeave_def handleDoneLeaving_def Let_def emit_def andThen_def coord_def)

lemma no_hook_appear:
  assumes "refs s k = Some c" "\<not> componentWillAppear c"
  shows "performAppear s k =
           handleDoneAppearing (emit (Perform Appear k)
             (s\<lparr>currentlyTransitioningKeys := insert k (currentlyTransitioningKeys s)\<rparr>)) k"
    and "map_sum id (coord (Will Appear k)) (performAppear s k) =
         map_sum id (coord (Will Appear k))
           (andThen (performAppear (s\<lparr>refs := (refs s)(k \<mapsto> c\<lparr>componentWillAppear := True\<rparr>)\<rparr>) k)
              (\<lambda>t. handleDoneAppearing t k))"
  using assms
  by (simp_all add: performAppear_def handleDoneAppearing_def performLeave_def
        handleDoneLeaving_def Let_def emit_def andThen_def coord_def)

section \<open>Specification properties\<close>

subsection \<open>The merge of tracked and desired children\<close>

text \<open>
  Claim C1, as the code has it. The keys of \<open>mergeChildren tracked desired\<close> are the
  union of the tracked and the desired keys, and no key appears twice. For a tracked
  collection with distinct keys the result is the tracked children, in their order,
  followed by the desired children whose key is not tracked (each such key once, and all
  of them in order when the desired keys are distinct too). For a key present in both
  inputs the entry of the result is the tracked one: the element Ramda's
  \<^verbatim>\<open>unionWith\<close> keeps is the first it meets, so the payload supplied with the desired
  collection is discarded.
\<close>

theorem mergeChildren_union:
  "set (keys (mergeChildren tracked desired)) = set (keys tracked) \<union> set (keys desired) \<and>
   distinct (keys (mergeChildren tracked desired)) \<and>
   (distinct (keys tracked) \<longrightarrow>
      mergeChildren tracked desired =
        tracked @ uniqWith (\<lambda>x y. key x = key y) [c \<leftarrow> desired. key c \<notin> set (keys tracked)] \<and>
      (distinct (keys desired) \<longrightarrow>
         mergeChildren tracked desired =
           tracked @ [c \<leftarrow> desired. key c \<notin> set (keys tracked)]) \<and>
      (\<forall>c \<in> set (mergeChildren tracked desired). \<forall>t \<in> set tracked.
          key c = key t \<longrightarrow> c = t))"
proof (intro conjI impI)
  show "set (keys (mergeChildren tracked desired)) = set (keys tracked) \<union> set (keys desired)"
    by (rule mergeChildren_keys_set)
  show d: "distinct (keys (mergeChildren tracked desired))"
    by (rule mergeChildren_distinct)
  assume dt: "distinct (keys tracked)"
  then show m: "mergeChildren tracked desired =
      tracked @ uniqWith (\<lambda>x y. key x = key y) [c \<leftarrow> desired. key c \<notin> set (keys tracked)]"
    by (rule mergeChildren_tracked_first)
  show "\<forall>c \<in> set (mergeChildren tracked desired). \<forall>t \<in> set tracked. key c = key t \<longrightarrow> c = t"
  proof (intro ballI impI)
    fix c t
    assume c: "c \<in> set (mergeChildren tracked desired)" and t: "t \<in> set tracked"
      and k: "key c = key t"
    from t m have "t \<in> set (mergeChildren tracked desired)" by simp
    with c k d show "c = t"
      by (simp add: keys_def distinct_map inj_on_def)
  qed
  assume "distinct (keys desired)"
  with m show "mergeChildren tracked desired =
      tracked @ [c \<leftarrow> desired. key c \<notin> set (keys tracked)]"
    by (simp add: uniqWith_filter_distinct)
qed

text \<open>The theorem at tracked \<open>[A, B]\<close> and desired \<open>[B, C]\<close>.\<close>

theorem mergeChildren_union_witness:
  "distinct (keys [el ''A'' 0 plain, el ''B'' 0 plain]) \<and>
   distinct (keys [el ''B'' 1 plain, el ''C'' 1 plain]) \<and>
   mergeChildren [el ''A'' 0 plain, el ''B'' 0 plain] [el ''B'' 1 plain, el ''C'' 1 plain] =
     [el ''A'' 0 plain, el ''B'' 0 plain, el ''C'' 1 plain]"
  using mergeChildren_union [of "[el ''A'' 0 plain, el ''B'' 0 plain]"
                                "[el ''B'' 1 plain, el ''C'' 1 plain]"]
  by (simp add: keys_def el_def uniqWith_def)

text \<open>
  The claim as stated lets the desired payload win. Tracked \<open>[A]\<close> with payload 0 merged
  with desired \<open>[A]\<close> with payload 1 keeps payload 0.
\<close>

theorem mergeChildren_desired_payload_counterexample:
  "mergeChildren [el ''A'' 0 plain] [el ''A'' 1 plain] = [el ''A'' 0 plain] \<and>
   payload (el ''A'' 0 plain) \<noteq> payload (el ''A'' 1 plain)"
  by (simp add: mergeChildren_def unionWith_def uniqWith_def el_def)

subsection \<open>The capacity limiter\<close>

text \<open>
  Claim C2. For a capacity \<open>0 \<le> sz\<close> (the specification's capacities are integers from 1
  on): when the merged collection is not longer than the capacity nothing is dropped and
  everything is kept; otherwise exactly the earliest \<open>length merged - sz\<close> entries are
  dropped and the rest is kept in order; in both cases dropped followed by kept is the
  merged collection, the kept part is not longer than the capacity, and so the children
  tracked after \<^verbatim>\<open>componentWillReceiveProps\<close> are not more than the capacity.
\<close>

theorem capacity_limiter:
  "0 \<le> sz \<Longrightarrow>
     (int (length merged) \<le> sz \<longrightarrow>
        droppedList (fst (dropExcess sz merged)) = [] \<and> snd (dropExcess sz merged) = merged) \<and>
     (sz < int (length merged) \<longrightarrow>
        droppedList (fst (dropExcess sz merged)) = take (length merged - nat sz) merged \<and>
        snd (dropExcess sz merged) = drop (length merged - nat sz) merged \<and>
        int (length (droppedList (fst (dropExcess sz merged)))) = int (length merged) - sz) \<and>
     droppedList (fst (dropExcess sz merged)) @ snd (dropExcess sz merged) = merged \<and>
     int (length (snd (dropExcess sz merged))) \<le> sz \<and>
     int (length (children (componentWillReceiveProps \<lparr>children_p = cs, size_p = sz\<rparr> s))) \<le> sz"
  by (auto simp: cWRP_children dropExcess_def droppedList_def Let_def nat_diff_distrib')

text \<open>The theorem at capacity 2, with three merged children and with two.\<close>

theorem capacity_limiter_witness:
  "(0::int) \<le> 2 \<and>
   dropExcess 2 [el ''A'' 0 plain, el ''B'' 0 plain, el ''C'' 1 plain] =
     (Some [el ''A'' 0 plain], [el ''B'' 0 plain, el ''C'' 1 plain]) \<and>
   dropExcess 2 [el ''A'' 0 plain, el ''B'' 0 plain] = (None, [el ''A'' 0 plain, el ''B'' 0 plain])"
  using capacity_limiter [of 2 "[el ''A'' 0 plain, el ''B'' 0 plain, el ''C'' 1 plain]" None "init (propsOf [] 2)"]
        capacity_limiter [of 2 "[el ''A'' 0 plain, el ''B'' 0 plain]" None "init (propsOf [] 2)"]
  by (simp add: dropExcess_def)

subsection \<open>The order of the transitions of one update\<close>

text \<open>
  Claim C5. \<^verbatim>\<open>componentDidUpdate\<close>, whenever every queued key has a mounted child,
  returns, and the transitions it begins are, in this order, the enter transitions of
  \<open>keysToEnter\<close> in queue order, the stay transitions of \<open>keysToStay\<close> and the leave
  transitions of \<open>keysToLeave\<close>. Hence in every reachable state a whole update cycle
  (new props, render, \<^verbatim>\<open>componentDidUpdate\<close>) returns and begins all enter transitions
  before any stay transition and all stay transitions before any leave transition.
\<close>

theorem update_cycle_order:
  "((\<forall>k \<in> set (keysToEnter t @ keysToStay t @ keysToLeave t). refs t k \<noteq> None) \<longrightarrow>
      (\<exists>t'. componentDidUpdate t = Inr t' \<and>
            performed (trace t') = performed (trace t) @ map (Pair Enter) (keysToEnter t) @
              map (Pair Stay) (keysToStay t) @ map (Pair Leave) (keysToLeave t))) \<and>
   (reachable s \<longrightarrow>
      (\<exists>s'. receiveProps np s = Inr s' \<and>
            performed (trace s') = performed (trace s) @
              map (Pair Enter) (keysToEnter (componentWillReceiveProps np s)) @
              map (Pair Stay) (keysToStay (componentWillReceiveProps np s)) @
              map (Pair Leave) (keysToLeave (componentWillReceiveProps np s))))"
proof (intro conjI impI)
  assume "\<forall>k \<in> set (keysToEnter t @ keysToStay t @ keysToLeave t). refs t k \<noteq> None"
  then obtain t' where t': "componentDidUpdate t = Inr t'"
    using componentDidUpdate_total by blast
  with componentDidUpdate_Inr [OF t']
  show "\<exists>t'. componentDidUpdate t = Inr t' \<and>
            performed (trace t') = performed (trace t) @ map (Pair Enter) (keysToEnter t) @
              map (Pair Stay) (keysToStay t) @ map (Pair Leave) (keysToLeave t)"
    by simp
next
  assume "reachable s"
  then have "idle s" by (rule reachable_idle)
  from receiveProps_cycle [OF this, of np]
  show "\<exists>s'. receiveProps np s = Inr s' \<and>
            performed (trace s') = performed (trace s) @
              map (Pair Enter) (keysToEnter (componentWillReceiveProps np s)) @
              map (Pair Stay) (keysToStay (componentWillReceiveProps np s)) @
              map (Pair Leave) (keysToLeave (componentWillReceiveProps np s))"
    by (auto simp: render_fields)
qed

text \<open>
  The theorem after the mount of \<open>[A, B]\<close>, when \<open>[B, C]\<close> arrive, and at a state with
  B queued to enter and A queued to stay.
\<close>

theorem update_cycle_order_witness:
  "reachable ex_state0 \<and>
   (\<exists>s'. receiveProps ex_props3 ex_state0 = Inr s' \<and>
         performed (trace s') = [(Appear, ''A''), (Appear, ''B''),
                                 (Enter, ''C''), (Stay, ''B''), (Leave, ''A'')]) \<and>
   (\<exists>t'. componentDidUpdate (ex_state0\<lparr>keysToEnter := [''B''], keysToStay := [''A''],
                                        keysToLeave := []\<rparr>) = Inr t' \<and>
         performed (trace t') = [(Appear, ''A''), (Appear, ''B''), (Enter, ''B''), (Stay, ''A'')])"
  using update_cycle_order [of "ex_state0\<lparr>keysToEnter := [''B''], keysToStay := [''A''],
                                        keysToLeave := []\<rparr>" ex_state0 ex_props3]
    ex_reachable(1)
  by (simp add: ex_defs eval_defs)

subsection \<open>The mount\<close>

text \<open>
  Claim C10. Whatever the props, size included, the mount returns; the tracked children
  are the supplied entries that are not null, in order and untrimmed (the size is not
  consulted), and none when no children are supplied; exactly their keys are mounted; and
  the transitions begun are one appear transition per tracked key, in order. Trimming is
  the work of \<^verbatim>\<open>componentWillReceiveProps\<close> alone (claim C2).
\<close>

theorem mount_tracks_all:
  "\<exists>s. mount p = Inr s \<and> props s = p \<and> children s = mapChildren (children_p p) \<and>
       map Some (children s) =
         filter (\<lambda>x. x \<noteq> None) (case children_p p of None \<Rightarrow> [] | Some xs \<Rightarrow> xs) \<and>
       performed (trace s) = map (Pair Appear) (keys (mapChildren (children_p p))) \<and>
       (\<forall>k. (refs s k \<noteq> None) = (k \<in> set (keys (mapChildren (children_p p)))))"
proof -
  from mount_result [of p] obtain s where
    "mount p = Inr s" "props s = p" "children s = mapChildren (children_p p)"
    "performed (trace s) = map (Pair Appear) (keys (mapChildren (children_p p)))"
    "\<forall>k. (refs s k \<noteq> None) = (k \<in> set (keys (mapChildren (children_p p))))"
    by blast
  then show ?thesis
    using mapChildren_filter [of "children_p p"] by auto
qed

text \<open>
  The theorem at four entries, one of them null, and size 2: the null entry is left out
  and the three children are all tracked and all appear.
\<close>

theorem mount_tracks_all_witness:
  "\<exists>s. mount ex_props7 = Inr s \<and> size_p ex_props7 = 2 \<and>
       children_p ex_props7 =
         Some [Some (el ''A'' 0 plain), None, Some (el ''B'' 0 plain), Some (el ''C'' 0 plain)] \<and>
       children s = [el ''A'' 0 plain, el ''B'' 0 plain, el ''C'' 0 plain] \<and>
       performed (trace s) = [(Appear, ''A''), (Appear, ''B''), (Appear, ''C'')]"
proof -
  from mount_tracks_all [of ex_props7] obtain s where s: "mount ex_props7 = Inr s"
    and f: "map Some (children s) =
         filter (\<lambda>x. x \<noteq> None) (case children_p ex_props7 of None \<Rightarrow> [] | Some xs \<Rightarrow> xs)"
    and t: "performed (trace s) = map (Pair Appear) (keys (mapChildren (children_p ex_props7)))"
    by blast
  from f have "map Some (children s) =
      map Some [el ''A'' 0 plain, el ''B'' 0 plain, el ''C'' 0 plain]"
    by (simp add: ex_props7_def)
  then have c: "children s = [el ''A'' 0 plain, el ''B'' 0 plain, el ''C'' 0 plain]"
    by (simp only: inj_map_eq_map [OF inj_Some])
  from s c t show ?thesis
    by (simp add: ex_props7_def mapChildren_def map_filter_simps keys_def el_def)
qed

subsection \<open>Classification of the keys\<close>




subsection \<open>Props that repeat the tracked children\<close>

text \<open>
  Claim C9, as the code has it. In a reachable state whose tracked keys are distinct,
  when no tracked key is flagged in flight and the tracked children fit the size, props
  whose children are the tracked ones queue no key to enter and none to leave; every key
  is queued to stay; the tracked children and the flags are unchanged by
  \<^verbatim>\<open>componentWillReceiveProps\<close> and by the whole update cycle, which returns and begins
  one stay transition per key and nothing else.
\<close>

theorem unchanged_children_stay:
  assumes "reachable s" and "distinct (keys (children s))"
    and "currentlyTransitioningKeys s \<inter> set (keys (children s)) = {}"
    and "int (length (children s)) \<le> size_p np"
    and "mapChildren (children_p np) = children s"
  shows "keysToEnter (componentWillReceiveProps np s) = [] \<and>
         keysToLeave (componentWillReceiveProps np s) = [] \<and>
         keysToStay (componentWillReceiveProps np s) = keys (children s) \<and>
         children (componentWillReceiveProps np s) = children s \<and>
         currentlyTransitioningKeys (componentWillReceiveProps np s) =
           currentlyTransitioningKeys s \<and>
         (\<exists>s'. receiveProps np s = Inr s' \<and> children s' = children s \<and>
               currentlyTransitioningKeys s' = currentlyTransitioningKeys s \<and>
               performed (trace s') = performed (trace s) @ map (Pair Stay) (keys (children s)))"
proof -
  let ?c = "componentWillReceiveProps np s"
  from assms(1) have idle: "idle s" by (rule reachable_idle)
  have m: "mergeChildren (children s) (children s) = children s"
    using assms(2) by (rule mergeChildren_same)
  have d: "dropExcess (size_p np) (children s) = (None, children s)"
    using assms(4) by (rule dropExcess_fits)
  have nd: "\<And>k. \<not> isDropped k None" by (simp add: isDropped_def)
  have e: "keysToEnter ?c = []"
    using idle assms(3,5)
    by (auto simp: cWRP_enter m d nd idle_def hasChild_iff filter_empty_conv)
  have l: "keysToLeave ?c = []"
    using idle assms(5)
    by (auto simp: cWRP_leave m d nd idle_def hasChild_iff filter_empty_conv)
  have st: "keysToStay ?c = keys (children s)"
    using idle assms(3,5)
    by (auto simp: cWRP_stay m d nd idle_def hasChild_iff filter_id_conv)
  have ch: "children ?c = children s" by (simp add: cWRP_children assms(5) m d)
  have fl: "currentlyTransitioningKeys ?c = currentlyTransitioningKeys s"
    by (simp add: cWRP_flags assms(5) m d droppedList_def keys_simps)
  from receiveProps_cycle [OF idle, of np] obtain s1 where
    s1: "rerender (?c\<lparr>props := np\<rparr>) = Inr s1" and
    r: "receiveProps np s = Inr (render s1)" and
    p: "performed (trace s1) = performed (trace s) @ map (Pair Enter) (keysToEnter ?c) @
          map (Pair Stay) (keysToStay ?c) @ map (Pair Leave) (keysToLeave ?c)"
    by blast
  from s1 have "componentDidUpdate (render (?c\<lparr>props := np\<rparr>)) = Inr s1"
    by (simp add: rerender_def)
  from componentDidUpdate_stays [OF _ _ this] e l
  have "children s1 = children ?c \<and> currentlyTransitioningKeys s1 = currentlyTransitioningKeys ?c"
    by (simp add: render_fields)
  with r p e l st ch fl show ?thesis by (simp add: render_fields)
qed

text \<open>The theorem after the mount of \<open>[A, B]\<close>, when \<open>[A, B]\<close> arrive again.\<close>

theorem unchanged_children_stay_witness:
  "reachable ex_state0 \<and> distinct (keys (children ex_state0)) \<and>
   currentlyTransitioningKeys ex_state0 \<inter> set (keys (children ex_state0)) = {} \<and>
   int (length (children ex_state0)) \<le> size_p ex_props0 \<and>
   mapChildren (children_p ex_props0) = children ex_state0 \<and>
   keysToStay (componentWillReceiveProps ex_props0 ex_state0) = [''A'', ''B''] \<and>
   (\<exists>s'. receiveProps ex_props0 ex_state0 = Inr s' \<and>
         children s' = [el ''A'' 0 leaver, el ''B'' 0 plain] \<and>
         currentlyTransitioningKeys s' = {} \<and>
         performed (trace s') = [(Appear, ''A''), (Appear, ''B''), (Stay, ''A''), (Stay, ''B'')])"
proof -
  have h: "reachable ex_state0" "distinct (keys (children ex_state0))"
    "currentlyTransitioningKeys ex_state0 \<inter> set (keys (children ex_state0)) = {}"
    "int (length (children ex_state0)) \<le> size_p ex_props0"
    "mapChildren (children_p ex_props0) = children ex_state0"
    by (simp_all add: ex_reachable) (simp_all add: ex_defs eval_defs)
  from unchanged_children_stay [OF h] h show ?thesis
    by (simp add: ex_defs eval_defs)
qed

text \<open>
  Both provisos are needed. While A is appearing (flag set, callback pending) the same
  children \<open>[A]\<close> queue A to enter; and three tracked children at size 2, supplied again,
  lose A to the limiter.
\<close>

theorem unchanged_children_counterexample:
  "reachable ex_state4 \<and> mapChildren (children_p ex_props4) = children ex_state4 \<and>
   keysToEnter (componentWillReceiveProps ex_props4 ex_state4) = [''A''] \<and>
   reachable ex_state6 \<and> mapChildren (children_p ex_props6) = children ex_state6 \<and>
   keys (children (componentWillReceiveProps ex_props6 ex_state6)) = [''B'', ''C'']"
  using ex_reachable(5) reach_mount [OF ex_mount6]
  by (simp add: ex_state6_def ex_defs eval_defs)

subsection \<open>A completion callback called twice\<close>

text \<open>
  Claim C3, as the code has it. In a reachable state, when the completion callback of an
  enter or of a stay transition, or of an appear transition whose key is still desired,
  has returned, calling it a second time returns again and leaves the tracked children
  and the in-flight flags as the first call left them. Nothing of the kind is stated for
  the leave callback.
\<close>

theorem completion_repeated:
  assumes "reachable s"
  shows "(doneEntering k s = Inr s1 \<longrightarrow>
            (\<exists>s2. doneEntering k s1 = Inr s2 \<and> children s2 = children s1 \<and>
                  currentlyTransitioningKeys s2 = currentlyTransitioningKeys s1)) \<and>
         (doneStaying k s = Inr s1 \<longrightarrow>
            (\<exists>s2. doneStaying k s1 = Inr s2 \<and> children s2 = children s1 \<and>
                  currentlyTransitioningKeys s2 = currentlyTransitioningKeys s1)) \<and>
         (doneAppearing k s = Inr s1 \<and> hasChild k (mapChildren (children_p (props s))) \<longrightarrow>
            (\<exists>s2. doneAppearing k s1 = Inr s2 \<and> children s2 = children s1 \<and>
                  currentlyTransitioningKeys s2 = currentlyTransitioningKeys s1))"
  using assms entered_twice [of k s s1] stayed_twice [of k s s1] appeared_twice [of s k s1]
  by blast

text \<open>
  The theorem at three callbacks: enter of A and stay of B after the mount of \<open>[A, B]\<close>,
  appear of A while \<open>[A]\<close> is desired.
\<close>

theorem completion_repeated_witness:
  "reachable ex_state0 \<and> doneEntering ''A'' ex_state0 = Inr ex_state0 \<and>
   (\<exists>s2. doneEntering ''A'' ex_state0 = Inr s2 \<and> children s2 = children ex_state0) \<and>
   doneStaying ''B'' ex_state0 = Inr ex_state0 \<and>
   (\<exists>s2. doneStaying ''B'' ex_state0 = Inr s2 \<and> children s2 = children ex_state0) \<and>
   reachable ex_state4 \<and>
   doneAppearing ''A'' ex_state4 = Inr (ex_state4\<lparr>currentlyTransitioningKeys := {}\<rparr>) \<and>
   hasChild ''A'' (mapChildren (children_p (props ex_state4))) \<and>
   (\<exists>s2. doneAppearing ''A'' (ex_state4\<lparr>currentlyTransitioningKeys := {}\<rparr>) = Inr s2 \<and>
         currentlyTransitioningKeys s2 = {})"
proof -
  have e: "doneEntering ''A'' ex_state0 = Inr ex_state0"
    and s: "doneStaying ''B'' ex_state0 = Inr ex_state0"
    and a: "doneAppearing ''A'' ex_state4 = Inr (ex_state4\<lparr>currentlyTransitioningKeys := {}\<rparr>)"
    and h: "hasChild ''A'' (mapChildren (children_p (props ex_state4)))"
    by (simp_all add: ex_defs eval_defs)
  from completion_repeated [OF ex_reachable(1), of "''A''" ex_state0] e
  have 1: "\<exists>s2. doneEntering ''A'' ex_state0 = Inr s2 \<and> children s2 = children ex_state0"
    by blast
  from completion_repeated [OF ex_reachable(1), of "''B''" ex_state0] s
  have 2: "\<exists>s2. doneStaying ''B'' ex_state0 = Inr s2 \<and> children s2 = children ex_state0"
    by blast
  from completion_repeated [OF ex_reachable(5), of "''A''"
      "ex_state4\<lparr>currentlyTransitioningKeys := {}\<rparr>"] a h
  have 3: "\<exists>s2. doneAppearing ''A'' (ex_state4\<lparr>currentlyTransitioningKeys := {}\<rparr>) = Inr s2 \<and>
         currentlyTransitioningKeys s2 = {}"
    by auto
  from e s a h 1 2 3 ex_reachable show ?thesis by blast
qed

text \<open>
  The claim as stated covers the leave callback too. While A is leaving, the first
  completion of its leave returns and removes A; the second does not return: the child is
  unmounted, \<^verbatim>\<open>this.refs['A']\<close> is \<^verbatim>\<open>undefined\<close>, and reading its hook throws.
\<close>

theorem second_leave_completion_counterexample:
  "reachable ex_state1 \<and> doneLeaving ''A'' ex_state1 = Inr ex_state3 \<and>
   doneLeaving ''A'' ex_state3 = Inl TypeError"
  using ex_reachable(2) ex_left3
  by (simp add: ex_defs eval_defs)

subsection \<open>A completion callback of a dropped child\<close>

text \<open>
  Claim C4 asks that a completion callback arriving for a force-dropped key does nothing
  and raises no error. The code at the run below: \<open>[A, B]\<close> are mounted at size 2, then
  \<open>[B]\<close> is desired and the leave of A begins (callback pending), then \<open>[A, C]\<close> is desired
  and the limiter drops A, clearing its flag and unmounting it; when the child then calls
  its leave callback, \<^verbatim>\<open>_handleDoneLeaving\<close> reads \<^verbatim>\<open>this.refs['A']\<close>, which is
  \<^verbatim>\<open>undefined\<close>, and throws a \<^verbatim>\<open>TypeError\<close>.
\<close>

theorem dropped_key_completion_throws:
  "mount ex_props0 = Inr ex_state0 \<and> receiveProps ex_props1 ex_state0 = Inr ex_state1 \<and>
   ''A'' \<in> currentlyTransitioningKeys ex_state1 \<and>
   receiveProps ex_props2 ex_state1 = Inr ex_state2 \<and>
   keys (children ex_state2) = [''C''] \<and> currentlyTransitioningKeys ex_state2 = {} \<and>
   doneLeaving ''A'' ex_state2 = Inl TypeError"
  using ex_mount0 ex_update1 ex_update2
  by (simp add: ex_defs eval_defs)

subsection \<open>An appear transition that ends after its key was withdrawn\<close>




subsection \<open>Transitions of a child without the hook\<close>

text \<open>
  Claim C8. For each of the four kinds, when the mounted child of \<open>k\<close> does not define the
  \<^verbatim>\<open>componentWill...\<close> hook of that kind, beginning the transition is the same as
  running the done-handler of that kind in the same step, on the state the hook would have
  been called in; and it agrees, on everything but \<open>refs\<close> and the record of the hook call
  itself, with the run in which the child does define the hook and its callback is fired
  as soon as the hook has been called.
\<close>

theorem absent_hook_completes_at_once:
  assumes "refs s k = Some c"
  shows "(\<not> componentWillAppear c \<longrightarrow>
            performAppear s k =
              handleDoneAppearing (emit (Perform Appear k)
                (s\<lparr>currentlyTransitioningKeys := insert k (currentlyTransitioningKeys s)\<rparr>)) k \<and>
            map_sum id (coord (Will Appear k)) (performAppear s k) =
              map_sum id (coord (Will Appear k))
                (andThen
                  (performAppear (s\<lparr>refs := (refs s)(k \<mapsto> c\<lparr>componentWillAppear := True\<rparr>)\<rparr>) k)
                  (\<lambda>t. handleDoneAppearing t k))) \<and>
         (\<not> componentWillEnter c \<longrightarrow>
            performEnter s k =
              handleDoneEntering (emit (Perform Enter k)
                (s\<lparr>currentlyTransitioningKeys := insert k (currentlyTransitioningKeys s)\<rparr>)) k \<and>
            map_sum id (coord (Will Enter k)) (performEnter s k) =
              map_sum id (coord (Will Enter k))
                (andThen
                  (performEnter (s\<lparr>refs := (refs s)(k \<mapsto> c\<lparr>componentWillEnter := True\<rparr>)\<rparr>) k)
                  (\<lambda>t. handleDoneEntering t k))) \<and>
         (\<not> componentWillStay c \<longrightarrow>
            performStay s k = handleDoneStaying (emit (Perform Stay k) s) k \<and>
            map_sum id (coord (Will Stay k)) (performStay s k) =
              map_sum id (coord (Will Stay k))
                (andThen
                  (performStay (s\<lparr>refs := (refs s)(k \<mapsto> c\<lparr>componentWillStay := True\<rparr>)\<rparr>) k)
                  (\<lambda>t. handleDoneStaying t k))) \<and>
         (\<not> componentWillLeave c \<longrightarrow>
            performLeave s k =
              handleDoneLeaving (emit (Perform Leave k)
                (s\<lparr>currentlyTransitioningKeys := insert k (currentlyTransitioningKeys s)\<rparr>)) k \<and>
            map_sum id (coord (Will Leave k)) (performLeave s k) =
              map_sum id (coord (Will Leave k))
                (andThen
                  (performLeave (s\<lparr>refs := (refs s)(k \<mapsto> c\<lparr>componentWillLeave := True\<rparr>)\<rparr>) k)
                  (\<lambda>t. handleDoneLeaving t k)))"
  using no_hook_appear [OF assms] no_hook_enter [OF assms] no_hook_stay [OF assms]
    no_hook_leave [OF assms]
  by blast

text \<open>
  The theorem at B, which defines no hook, after the mount of \<open>[A, B]\<close>: entering B
  leaves no flag behind, and leaving B removes it at once.
\<close>

theorem absent_hook_completes_at_once_witness:
  "refs ex_state0 ''B'' = Some plain \<and>
   \<not> componentWillAppear plain \<and> \<not> componentWillEnter plain \<and>
   \<not> componentWillStay plain \<and> \<not> componentWillLeave plain \<and>
   performEnter ex_state0 ''B'' =
     handleDoneEntering (emit (Perform Enter ''B'')
       (ex_state0\<lparr>currentlyTransitioningKeys :=
          insert ''B'' (currentlyTransitioningKeys ex_state0)\<rparr>)) ''B'' \<and>
   map_sum id (coord (Will Leave ''B'')) (performLeave ex_state0 ''B'') =
     map_sum id (coord (Will Leave ''B''))
       (andThen
         (performLeave (ex_state0\<lparr>refs := (refs ex_state0)(''B'' \<mapsto> plain\<lparr>componentWillLeave := True\<rparr>)\<rparr>) ''B'')
         (\<lambda>t. handleDoneLeaving t ''B'')) \<and>
   map_sum id (\<lambda>t. keys (children t)) (performLeave ex_state0 ''B'') = Inr [''A''] \<and>
   map_sum id currentlyTransitioningKeys (performEnter ex_state0 ''B'') = Inr {}"
proof -
  have h: "refs ex_state0 ''B'' = Some plain"
    "\<not> componentWillAppear plain" "\<not> componentWillEnter plain"
    "\<not> componentWillStay plain" "\<not> componentWillLeave plain"
    by (simp_all add: ex_defs eval_defs)
  have e: "map_sum id (\<lambda>t. keys (children t)) (performLeave ex_state0 ''B'') = Inr [''A'']"
    "map_sum id currentlyTransitioningKeys (performEnter ex_state0 ''B'') = Inr {}"
    by (simp_all add: ex_defs eval_defs)
  from absent_hook_completes_at_once [OF h(1)] h e show ?thesis
    by blast
qed

end
